theory Spec2Isabelle
  imports Main
begin

section \<open>The copy-on-write vector of cow.h\<close>

text \<open>
  \<^verbatim>\<open>cow::vector<T>\<close> holds one \<^verbatim>\<open>std::shared_ptr<std::vector<T>>\<close> (the field
  \<^verbatim>\<open>_storage\<close>) and a lock. Iterators and read-only views hold further shared pointers to
  the same \<^verbatim>\<open>std::vector\<close>. The claims depend on who shares which vector, so the model
  has an explicit store: addresses of \<^verbatim>\<open>TStorage\<close> objects, their contents, and the
  strong reference count of each. Every function of the class that runs under the lock is
  one atomic state transformer.
\<close>

subsection \<open>Errors\<close>

text \<open>
  Every exception and every undefined dereference of the source is a value:
  \<^verbatim>\<open>std::bad_alloc\<close>, an exception of \<^verbatim>\<open>T\<close>'s constructor, an exception of the
  predicate, the dereference of a null (or dangling) pointer, \<^verbatim>\<open>std::out_of_range\<close>.
\<close>

datatype error = BadAlloc | ElemCtorFailed | PredicateFailed | NullDereference | OutOfRange

subsection \<open>The store\<close>

text \<open>
  \<^verbatim>\<open>TStorage = std::vector<T, TAlloc>\<close>: its elements and its capacity.
\<close>

record 'a tstorage =
  elems :: "'a list"
  capacity :: nat

type_synonym addr = nat

text \<open>\<^verbatim>\<open>TStoragePtr = std::shared_ptr<TStorage>\<close>: null or the address of a storage.\<close>

type_synonym handle = "addr option"

text \<open>
  The store: the live \<^verbatim>\<open>TStorage\<close> objects, the strong count of each control block,
  the next unused address, and the outcome of the coming fallible library steps
  (an allocation request of \<^verbatim>\<open>TAlloc\<close> or \<^verbatim>\<open>new\<close>, a construction of a \<^verbatim>\<open>T\<close>):
  \<open>True\<close> succeeds, \<open>False\<close> throws, and an exhausted list always succeeds.
  \<^verbatim>\<open>T\<close> and \<^verbatim>\<open>TAlloc\<close> are template parameters, so their failures are a parameter here.
\<close>

record 'a heap =
  cells :: "addr \<Rightarrow> 'a tstorage option"
  use_count :: "addr \<Rightarrow> nat"
  next_addr :: addr
  faults :: "bool list"

text \<open>One fallible step: consumes the next outcome.\<close>

definition step_ok :: "'a heap \<Rightarrow> bool \<times> 'a heap" where
  "step_ok h = (case faults h of [] \<Rightarrow> (True, h) | b # bs \<Rightarrow> (b, h\<lparr>faults := bs\<rparr>))"

text \<open>Copy-constructing \<open>n\<close> elements in turn; stops at the first constructor that throws.\<close>

fun construct_n :: "nat \<Rightarrow> 'a heap \<Rightarrow> bool \<times> 'a heap" where
  "construct_n 0 h = (True, h)"
| "construct_n (Suc n) h =
     (case step_ok h of (False, h') \<Rightarrow> (False, h') | (True, h') \<Rightarrow> construct_n n h')"

subsection \<open>\<^verbatim>\<open>std::shared_ptr\<close>\<close>

text \<open>\<^verbatim>\<open>use_count()\<close>: 0 for a null pointer.\<close>

definition sp_use_count :: "handle \<Rightarrow> 'a heap \<Rightarrow> nat" where
  "sp_use_count p h = (case p of None \<Rightarrow> 0 | Some a \<Rightarrow> use_count h a)"

text \<open>Copying a shared pointer adds a holder.\<close>

definition sp_acquire :: "handle \<Rightarrow> 'a heap \<Rightarrow> 'a heap" where
  "sp_acquire p h =
     (case p of None \<Rightarrow> h
      | Some a \<Rightarrow> h\<lparr>use_count := (use_count h)(a := Suc (use_count h a))\<rparr>)"

text \<open>
  Destroying, resetting or overwriting a shared pointer drops a holder; the last holder
  destroys the storage.
\<close>

definition sp_release :: "handle \<Rightarrow> 'a heap \<Rightarrow> 'a heap" where
  "sp_release p h =
     (case p of None \<Rightarrow> h
      | Some a \<Rightarrow>
          if use_count h a \<le> 1
          then h\<lparr>cells := (cells h)(a := None), use_count := (use_count h)(a := 0)\<rparr>
          else h\<lparr>use_count := (use_count h)(a := use_count h a - 1)\<rparr>)"

text \<open>
  \<^verbatim>\<open>TStoragePtr(new TStorage())\<close>: two allocation requests (the vector object, then the
  control block; when the second throws, the object is deleted again), an empty vector of
  capacity 0 held once.
\<close>

definition new_storage :: "'a heap \<Rightarrow> (error + addr) \<times> 'a heap" where
  "new_storage h =
     (case step_ok h of
        (False, h1) \<Rightarrow> (Inl BadAlloc, h1)
      | (True, h1) \<Rightarrow>
          (case step_ok h1 of
             (False, h2) \<Rightarrow> (Inl BadAlloc, h2)
           | (True, h2) \<Rightarrow>
               (Inr (next_addr h2),
                h2\<lparr>cells := (cells h2)(next_addr h2 \<mapsto> \<lparr>elems = [], capacity = 0\<rparr>),
                   use_count := (use_count h2)(next_addr h2 := 1),
                   next_addr := Suc (next_addr h2)\<rparr>)))"

subsection \<open>\<^verbatim>\<open>std::vector\<close> through a pointer\<close>

text \<open>
  The members of \<^verbatim>\<open>std::vector\<close> that cow.h calls, as the C++ standard specifies them,
  applied to the storage at an address. A missing storage is a null dereference.
  Relocating existing elements (on growth, \<^verbatim>\<open>insert\<close> and \<^verbatim>\<open>erase\<close>) is by move and
  does not throw.
\<close>

text \<open>
  The elements of the storage at an address, for \<^verbatim>\<open>size()\<close>, \<^verbatim>\<open>begin()\<close> and \<^verbatim>\<open>end()\<close>
  through a pointer that is known not to be null. A shared pointer keeps its storage
  alive, so in a well-formed state (\<open>vector_ok\<close> below) the storage is there; the value
  for a missing storage only makes the function total.
\<close>

definition vec_elems :: "addr \<Rightarrow> 'a heap \<Rightarrow> 'a list" where
  "vec_elems a h = (case cells h a of None \<Rightarrow> [] | Some s \<Rightarrow> elems s)"

text \<open>\<^verbatim>\<open>reserve(n)\<close>: one allocation request when \<open>n\<close> exceeds the capacity.\<close>

definition vec_reserve :: "nat \<Rightarrow> addr \<Rightarrow> 'a heap \<Rightarrow> (error + unit) \<times> 'a heap" where
  "vec_reserve n a h =
     (case cells h a of
        None \<Rightarrow> (Inl NullDereference, h)
      | Some s \<Rightarrow>
          if n \<le> capacity s then (Inr (), h)
          else (case step_ok h of
                  (False, h') \<Rightarrow> (Inl BadAlloc, h')
                | (True, h') \<Rightarrow> (Inr (), h'\<lparr>cells := (cells h')(a \<mapsto> s\<lparr>capacity := n\<rparr>)\<rparr>)))"

text \<open>
  \<^verbatim>\<open>insert(begin() + pos, first, last)\<close> of the elements \<open>xs\<close>; \<^verbatim>\<open>push_back(t)\<close>,
  \<^verbatim>\<open>emplace_back(args)\<close> and \<^verbatim>\<open>insert(begin(), t)\<close> are the one-element cases. When the
  capacity does not suffice there is one allocation request (the vector at least doubles);
  then each new element is constructed. A failure leaves the vector as it was.
\<close>

definition vec_insert :: "nat \<Rightarrow> 'a list \<Rightarrow> addr \<Rightarrow> 'a heap \<Rightarrow> (error + unit) \<times> 'a heap" where
  "vec_insert pos xs a h =
     (case cells h a of
        None \<Rightarrow> (Inl NullDereference, h)
      | Some s \<Rightarrow>
          (case (if length (elems s) + length xs \<le> capacity s then (True, h) else step_ok h) of
             (False, h1) \<Rightarrow> (Inl BadAlloc, h1)
           | (True, h1) \<Rightarrow>
               (case construct_n (length xs) h1 of
                  (False, h2) \<Rightarrow> (Inl ElemCtorFailed, h2)
                | (True, h2) \<Rightarrow>
                    (Inr (),
                     h2\<lparr>cells := (cells h2)(a \<mapsto>
                          \<lparr>elems = take pos (elems s) @ xs @ drop pos (elems s),
                           capacity = (if length (elems s) + length xs \<le> capacity s
                                       then capacity s
                                       else max (2 * capacity s) (length (elems s) + length xs))\<rparr>)\<rparr>))))"

text \<open>\<^verbatim>\<open>insert(end(), first, last)\<close> and \<^verbatim>\<open>push_back(t)\<close> / \<^verbatim>\<open>emplace_back(args)\<close>.\<close>

definition vec_append :: "'a list \<Rightarrow> addr \<Rightarrow> 'a heap \<Rightarrow> (error + unit) \<times> 'a heap" where
  "vec_append xs a h = vec_insert (length (vec_elems a h)) xs a h"

definition vec_push_back :: "'a \<Rightarrow> addr \<Rightarrow> 'a heap \<Rightarrow> (error + unit) \<times> 'a heap" where
  "vec_push_back t a h = vec_append [t] a h"

text \<open>\<^verbatim>\<open>erase(begin() + i)\<close>.\<close>

definition vec_erase :: "nat \<Rightarrow> addr \<Rightarrow> 'a heap \<Rightarrow> (error + unit) \<times> 'a heap" where
  "vec_erase i a h =
     (case cells h a of
        None \<Rightarrow> (Inl NullDereference, h)
      | Some s \<Rightarrow>
          (Inr (), h\<lparr>cells := (cells h)(a \<mapsto> s\<lparr>elems := take i (elems s) @ drop (Suc i) (elems s)\<rparr>)\<rparr>))"

text \<open>\<^verbatim>\<open>at(pos)\<close> throws \<^verbatim>\<open>std::out_of_range\<close> unless \<open>pos < size()\<close>.\<close>

definition vec_at :: "nat \<Rightarrow> 'a list \<Rightarrow> error + 'a" where
  "vec_at pos xs = (if pos < length xs then Inr (xs ! pos) else Inl OutOfRange)"

text \<open>Dereferencing a shared pointer: \<^verbatim>\<open>*p\<close>, \<^verbatim>\<open>p->\<close>.\<close>

definition deref :: "handle \<Rightarrow> 'a heap \<Rightarrow> error + 'a tstorage" where
  "deref p h =
     (case p of None \<Rightarrow> Inl NullDereference
      | Some a \<Rightarrow> (case cells h a of None \<Rightarrow> Inl NullDereference | Some s \<Rightarrow> Inr s))"

text \<open>Two statements in sequence: an exception of the first skips the second.\<close>

definition then_do ::
  "('h \<Rightarrow> (error + unit) \<times> 'h) \<Rightarrow> ('h \<Rightarrow> (error + 'r) \<times> 'h) \<Rightarrow> 'h \<Rightarrow> (error + 'r) \<times> 'h" where
  "then_do m k h = (case m h of (Inl e, h') \<Rightarrow> (Inl e, h') | (Inr u, h') \<Rightarrow> k h')"

subsection \<open>The container\<close>

text \<open>
  \<^verbatim>\<open>cow::vector\<close>: the field \<^verbatim>\<open>_storage\<close>. The lock is not a field of the model: each
  function below is what the source does between taking and releasing it.
\<close>

record vector =
  storage :: handle

text \<open>\<^verbatim>\<open>vector()\<close>: a null \<^verbatim>\<open>_storage\<close>.\<close>

definition vector_new :: vector where
  "vector_new = \<lparr>storage = None\<rparr>"

text \<open>\<^verbatim>\<open>copy()\<close>: a copy of \<^verbatim>\<open>_storage\<close>, taken under the lock.\<close>

definition copy :: "vector \<Rightarrow> 'a heap \<Rightarrow> handle \<times> 'a heap" where
  "copy c h = (storage c, sp_acquire (storage c) h)"

text \<open>\<^verbatim>\<open>vector(const TVector& array)\<close>: the new container holds \<^verbatim>\<open>array.copy()\<close>.\<close>

definition vector_copy :: "vector \<Rightarrow> 'a heap \<Rightarrow> vector \<times> 'a heap" where
  "vector_copy array h = (case copy array h of (p, h') \<Rightarrow> (\<lparr>storage = p\<rparr>, h'))"

text \<open>\<^verbatim>\<open>_storage = p\<close>: \<open>p\<close> gains a holder, the old storage loses one.\<close>

definition assign_storage :: "handle \<Rightarrow> vector \<Rightarrow> 'a heap \<Rightarrow> vector \<times> 'a heap" where
  "assign_storage p c h = (c\<lparr>storage := p\<rparr>, sp_release (storage c) (sp_acquire p h))"

text \<open>\<^verbatim>\<open>_storage.reset()\<close>.\<close>

definition reset_storage :: "vector \<Rightarrow> 'a heap \<Rightarrow> vector \<times> 'a heap" where
  "reset_storage c h = (c\<lparr>storage := None\<rparr>, sp_release (storage c) h)"

text \<open>
  The scope of the local \<^verbatim>\<open>TStoragePtr newStorage = TStoragePtr(new TStorage())\<close>: the
  body runs with the new storage, and the local pointer is destroyed when the scope is
  left, by \<^verbatim>\<open>return\<close> or by an exception.
\<close>

definition with_new_storage ::
  "(addr \<Rightarrow> 'a heap \<Rightarrow> (error + 'r) \<times> vector \<times> 'a heap) \<Rightarrow> vector \<Rightarrow> 'a heap
     \<Rightarrow> (error + 'r) \<times> vector \<times> 'a heap" where
  "with_new_storage body c h =
     (case new_storage h of
        (Inl e, h1) \<Rightarrow> (Inl e, c, h1)
      | (Inr n, h1) \<Rightarrow> (case body n h1 of (r, c', h2) \<Rightarrow> (r, c', sp_release (Some n) h2)))"

text \<open>
  The end of the copy branch of the three insertions: an exception while filling the new
  storage leaves \<^verbatim>\<open>_storage\<close> alone, otherwise \<^verbatim>\<open>_storage = newStorage\<close>.
\<close>

definition fill_then_swap ::
  "('a heap \<Rightarrow> (error + unit) \<times> 'a heap) \<Rightarrow> addr \<Rightarrow> vector \<Rightarrow> 'a heap
     \<Rightarrow> (error + unit) \<times> vector \<times> 'a heap" where
  "fill_then_swap fill n c h =
     (case fill h of
        (Inl e, h') \<Rightarrow> (Inl e, c, h')
      | (Inr u, h') \<Rightarrow> (case assign_storage (Some n) c h' of (c', h'') \<Rightarrow> (Inr (), c', h'')))"

text \<open>\<^verbatim>\<open>clear()\<close>.\<close>

definition clear :: "vector \<Rightarrow> 'a heap \<Rightarrow> (error + unit) \<times> vector \<times> 'a heap" where
  "clear c h = (case reset_storage c h of (c', h') \<Rightarrow> (Inr (), c', h'))"

text \<open>
  \<^verbatim>\<open>push_front(t)\<close>: in place when \<^verbatim>\<open>_storage.use_count() == 1\<close>; otherwise (a null
  \<^verbatim>\<open>_storage\<close> has count 0) a new storage with \<open>t\<close> first and the old elements after it.
\<close>

definition push_front :: "'a \<Rightarrow> vector \<Rightarrow> 'a heap \<Rightarrow> (error + unit) \<times> vector \<times> 'a heap" where
  "push_front t c h =
     (if sp_use_count (storage c) h = 1
      then (case storage c of
              None \<Rightarrow> (Inl NullDereference, c, h)
            | Some a \<Rightarrow> (case vec_insert 0 [t] a h of (r, h') \<Rightarrow> (r, c, h')))
      else with_new_storage
             (\<lambda>n. fill_then_swap
                (case storage c of
                   None \<Rightarrow> then_do (vec_reserve 4 n) (vec_push_back t n)
                 | Some a \<Rightarrow>
                     (\<lambda>h1. then_do (vec_reserve (length (vec_elems a h1) + 1 + 4) n)
                             (then_do (vec_push_back t n) (vec_append (vec_elems a h1) n)) h1))
                n c)
             c h)"

text \<open>\<^verbatim>\<open>push_back(t)\<close>: the same policy; the copy holds the old elements and then \<open>t\<close>.\<close>

definition push_back :: "'a \<Rightarrow> vector \<Rightarrow> 'a heap \<Rightarrow> (error + unit) \<times> vector \<times> 'a heap" where
  "push_back t c h =
     (if sp_use_count (storage c) h = 1
      then (case storage c of
              None \<Rightarrow> (Inl NullDereference, c, h)
            | Some a \<Rightarrow> (case vec_push_back t a h of (r, h') \<Rightarrow> (r, c, h')))
      else with_new_storage
             (\<lambda>n. fill_then_swap
                (then_do
                   (case storage c of
                      None \<Rightarrow> vec_reserve 4 n
                    | Some a \<Rightarrow>
                        (\<lambda>h1. then_do (vec_reserve (length (vec_elems a h1) + 1 + 4) n)
                                (vec_append (vec_elems a h1) n) h1))
                   (vec_push_back t n))
                n c)
             c h)"

text \<open>
  \<^verbatim>\<open>emplace_back(args...)\<close>: the text of \<^verbatim>\<open>push_back\<close> with \<^verbatim>\<open>emplace_back\<close> for the
  vector's \<^verbatim>\<open>push_back\<close>; \<open>t\<close> is the element that the arguments construct.
\<close>

definition emplace_back :: "'a \<Rightarrow> vector \<Rightarrow> 'a heap \<Rightarrow> (error + unit) \<times> vector \<times> 'a heap" where
  "emplace_back t c h =
     (if sp_use_count (storage c) h = 1
      then (case storage c of
              None \<Rightarrow> (Inl NullDereference, c, h)
            | Some a \<Rightarrow> (case vec_push_back t a h of (r, h') \<Rightarrow> (r, c, h')))
      else with_new_storage
             (\<lambda>n. fill_then_swap
                (then_do
                   (case storage c of
                      None \<Rightarrow> vec_reserve 4 n
                    | Some a \<Rightarrow>
                        (\<lambda>h1. then_do (vec_reserve (length (vec_elems a h1) + 1 + 4) n)
                                (vec_append (vec_elems a h1) n) h1))
                   (vec_push_back t n))
                n c)
             c h)"

text \<open>
  The loop of the sole-holder branch of \<^verbatim>\<open>remove\<close>, on the elements of \<^verbatim>\<open>*_storage\<close>:
  \<open>i\<close> is the position of \<^verbatim>\<open>it\<close>. A predicate that throws leaves the loop with the
  erasures made so far.
\<close>

function remove_loop ::
  "('a \<Rightarrow> bool option) \<Rightarrow> nat \<Rightarrow> 'a list \<Rightarrow> nat \<Rightarrow> (error + nat) \<times> 'a list" where
  "remove_loop predicate i xs count =
     (if i < length xs
      then (case predicate (xs ! i) of
              None \<Rightarrow> (Inl PredicateFailed, xs)
            | Some False \<Rightarrow> remove_loop predicate (Suc i) xs count
            | Some True \<Rightarrow> remove_loop predicate i (take i xs @ drop (Suc i) xs) (Suc count))
      else (Inr count, xs))"
  by pat_completeness auto
termination
  by (relation "measure (\<lambda>(predicate, i, xs, count). length xs - i)") auto

declare remove_loop.simps [simp del]

text \<open>
  The loop of the copy branch of \<^verbatim>\<open>remove\<close> over the elements \<open>xs\<close> of \<^verbatim>\<open>*_storage\<close>:
  a match is counted, any other element is pushed onto the new storage \<open>n\<close>.
\<close>

fun copy_unless ::
  "('a \<Rightarrow> bool option) \<Rightarrow> 'a list \<Rightarrow> nat \<Rightarrow> addr \<Rightarrow> 'a heap \<Rightarrow> (error + nat) \<times> 'a heap" where
  "copy_unless predicate [] count n h = (Inr count, h)"
| "copy_unless predicate (elem # xs) count n h =
     (case predicate elem of
        None \<Rightarrow> (Inl PredicateFailed, h)
      | Some True \<Rightarrow> copy_unless predicate xs (Suc count) n h
      | Some False \<Rightarrow>
          (case vec_push_back elem n h of
             (Inl e, h') \<Rightarrow> (Inl e, h')
           | (Inr u, h') \<Rightarrow> copy_unless predicate xs count n h'))"

text \<open>\<^verbatim>\<open>remove(predicate)\<close>.\<close>

definition remove ::
  "('a \<Rightarrow> bool option) \<Rightarrow> vector \<Rightarrow> 'a heap \<Rightarrow> (error + nat) \<times> vector \<times> 'a heap" where
  "remove predicate c h =
     (case storage c of
        None \<Rightarrow> (Inr 0, c, h)
      | Some a \<Rightarrow>
          (case cells h a of
             None \<Rightarrow> (Inl NullDereference, c, h)
           | Some s \<Rightarrow>
               if elems s = [] then (Inr 0, c, h)
               else if use_count h a = 1
               then (case remove_loop predicate 0 (elems s) 0 of
                       (r, xs) \<Rightarrow> (r, c, h\<lparr>cells := (cells h)(a \<mapsto> s\<lparr>elems := xs\<rparr>)\<rparr>))
               else with_new_storage
                      (\<lambda>n h1.
                         case then_do (vec_reserve (length (elems s)) n)
                                (copy_unless predicate (elems s) 0 n) h1 of
                           (Inl e, h2) \<Rightarrow> (Inl e, c, h2)
                         | (Inr count, h2) \<Rightarrow>
                             if length (elems s) = length (vec_elems n h2) then (Inr count, c, h2)
                             else if vec_elems n h2 = []
                             then (case reset_storage c h2 of (c', h3) \<Rightarrow> (Inr count, c', h3))
                             else (case assign_storage (Some n) c h2 of
                                     (c', h3) \<Rightarrow> (Inr count, c', h3)))
                      c h))"

text \<open>
  \<^verbatim>\<open>removeAt(it)\<close>, with \<open>i\<close> the position of \<^verbatim>\<open>it\<close> in \<^verbatim>\<open>*_storage\<close>
  (\<^verbatim>\<open>_storage->end()\<close> is position \<^verbatim>\<open>size()\<close>).
\<close>

definition removeAt :: "nat \<Rightarrow> vector \<Rightarrow> 'a heap \<Rightarrow> (error + bool) \<times> vector \<times> 'a heap" where
  "removeAt i c h =
     (case storage c of
        None \<Rightarrow> (Inl NullDereference, c, h)
      | Some a \<Rightarrow>
          (case cells h a of
             None \<Rightarrow> (Inl NullDereference, c, h)
           | Some s \<Rightarrow>
               if i = length (elems s) then (Inr False, c, h)
               else if length (elems s) = 1
               then (case reset_storage c h of (c', h') \<Rightarrow> (Inr True, c', h'))
               else if use_count h a = 1
               then (case vec_erase i a h of
                       (Inl e, h') \<Rightarrow> (Inl e, c, h')
                     | (Inr u, h') \<Rightarrow> (Inr True, c, h'))
               else with_new_storage
                      (\<lambda>n h1.
                         case then_do (vec_reserve (length (elems s)) n)
                                (then_do
                                   (if i \<noteq> 0 then vec_append (take i (elems s)) n
                                    else (\<lambda>h2. (Inr (), h2)))
                                   (if Suc i \<noteq> length (elems s)
                                    then vec_append (drop (Suc i) (elems s)) n
                                    else (\<lambda>h2. (Inr (), h2)))) h1 of
                           (Inl e, h2) \<Rightarrow> (Inl e, c, h2)
                         | (Inr u, h2) \<Rightarrow>
                             (case assign_storage (Some n) c h2 of
                                (c', h3) \<Rightarrow> (Inr True, c', h3)))
                      c h))"

text \<open>
  \<^verbatim>\<open>std::find_if\<close>: the position of the first element the predicate accepts, the length
  of the range when there is none.
\<close>

fun find_if :: "('a \<Rightarrow> bool option) \<Rightarrow> 'a list \<Rightarrow> error + nat" where
  "find_if predicate [] = Inr 0"
| "find_if predicate (x # xs) =
     (case predicate x of
        None \<Rightarrow> Inl PredicateFailed
      | Some True \<Rightarrow> Inr 0
      | Some False \<Rightarrow> (case find_if predicate xs of Inl e \<Rightarrow> Inl e | Inr i \<Rightarrow> Inr (Suc i)))"

text \<open>\<^verbatim>\<open>removeFirst(predicate)\<close>.\<close>

definition removeFirst ::
  "('a \<Rightarrow> bool option) \<Rightarrow> vector \<Rightarrow> 'a heap \<Rightarrow> (error + bool) \<times> vector \<times> 'a heap" where
  "removeFirst predicate c h =
     (case storage c of
        None \<Rightarrow> (Inr False, c, h)
      | Some a \<Rightarrow>
          (case cells h a of
             None \<Rightarrow> (Inl NullDereference, c, h)
           | Some s \<Rightarrow>
               if elems s = [] then (Inr False, c, h)
               else (case find_if predicate (elems s) of
                       Inl e \<Rightarrow> (Inl e, c, h)
                     | Inr i \<Rightarrow> removeAt i c h)))"

text \<open>
  \<^verbatim>\<open>removeLast(predicate)\<close>: \<open>j\<close> is the position of \<^verbatim>\<open>rit\<close> in the reversed range, and
  \<^verbatim>\<open>--rit.base()\<close> is position \<open>size - 1 - j\<close>.
\<close>

definition removeLast ::
  "('a \<Rightarrow> bool option) \<Rightarrow> vector \<Rightarrow> 'a heap \<Rightarrow> (error + bool) \<times> vector \<times> 'a heap" where
  "removeLast predicate c h =
     (case storage c of
        None \<Rightarrow> (Inr False, c, h)
      | Some a \<Rightarrow>
          (case cells h a of
             None \<Rightarrow> (Inl NullDereference, c, h)
           | Some s \<Rightarrow>
               if elems s = [] then (Inr False, c, h)
               else (case find_if predicate (rev (elems s)) of
                       Inl e \<Rightarrow> (Inl e, c, h)
                     | Inr j \<Rightarrow>
                         if j = length (elems s) then (Inr False, c, h)
                         else removeAt (length (elems s) - 1 - j) c h)))"

subsection \<open>Queries\<close>

text \<open>
  \<^verbatim>\<open>exists\<close>, \<^verbatim>\<open>find_first\<close> and \<^verbatim>\<open>find_last\<close> take \<^verbatim>\<open>copy()\<close> under the lock and do
  the rest without it, so the rest is a function of its own: it gets the captured pointer
  \<open>storage_copy\<close> and the container and store as they are when it runs. The three loops
  first.
\<close>

fun any_match :: "('a \<Rightarrow> bool option) \<Rightarrow> 'a list \<Rightarrow> error + bool" where
  "any_match predicate [] = Inr False"
| "any_match predicate (elem # xs) =
     (case predicate elem of
        None \<Rightarrow> Inl PredicateFailed
      | Some True \<Rightarrow> Inr True
      | Some False \<Rightarrow> any_match predicate xs)"

fun first_match :: "('a \<Rightarrow> bool option) \<Rightarrow> 'a \<Rightarrow> 'a list \<Rightarrow> error + 'a" where
  "first_match predicate default_value [] = Inr default_value"
| "first_match predicate default_value (elem # xs) =
     (case predicate elem of
        None \<Rightarrow> Inl PredicateFailed
      | Some True \<Rightarrow> Inr elem
      | Some False \<Rightarrow> first_match predicate default_value xs)"

text \<open>
  The test \<^verbatim>\<open>!storage_copy || _storage->empty()\<close> that opens all three: the right
  operand reads the field \<^verbatim>\<open>_storage\<close> of the container, and only when the captured
  pointer is not null.
\<close>

definition snapshot_unusable :: "handle \<Rightarrow> vector \<Rightarrow> 'a heap \<Rightarrow> error + bool" where
  "snapshot_unusable storage_copy c h =
     (case storage_copy of
        None \<Rightarrow> Inr True
      | Some b \<Rightarrow> (case deref (storage c) h of Inl e \<Rightarrow> Inl e | Inr s \<Rightarrow> Inr (elems s = [])))"

definition exists_scan :: "('a \<Rightarrow> bool option) \<Rightarrow> handle \<Rightarrow> vector \<Rightarrow> 'a heap \<Rightarrow> error + bool" where
  "exists_scan predicate storage_copy c h =
     (case snapshot_unusable storage_copy c h of
        Inl e \<Rightarrow> Inl e
      | Inr True \<Rightarrow> Inr False
      | Inr False \<Rightarrow>
          (case deref storage_copy h of
             Inl e \<Rightarrow> Inl e
           | Inr s \<Rightarrow> any_match predicate (elems s)))"

definition find_first_scan ::
  "('a \<Rightarrow> bool option) \<Rightarrow> 'a \<Rightarrow> handle \<Rightarrow> vector \<Rightarrow> 'a heap \<Rightarrow> error + 'a" where
  "find_first_scan predicate default_value storage_copy c h =
     (case snapshot_unusable storage_copy c h of
        Inl e \<Rightarrow> Inl e
      | Inr True \<Rightarrow> Inr default_value
      | Inr False \<Rightarrow>
          (case deref storage_copy h of
             Inl e \<Rightarrow> Inl e
           | Inr s \<Rightarrow> first_match predicate default_value (elems s)))"

definition find_last_scan ::
  "('a \<Rightarrow> bool option) \<Rightarrow> 'a \<Rightarrow> handle \<Rightarrow> vector \<Rightarrow> 'a heap \<Rightarrow> error + 'a" where
  "find_last_scan predicate default_value storage_copy c h =
     (case snapshot_unusable storage_copy c h of
        Inl e \<Rightarrow> Inl e
      | Inr True \<Rightarrow> Inr default_value
      | Inr False \<Rightarrow>
          (case deref storage_copy h of
             Inl e \<Rightarrow> Inl e
           | Inr s \<Rightarrow> first_match predicate default_value (rev (elems s))))"

text \<open>
  The whole call when nothing runs in between: capture, scan, destroy the local pointer.
\<close>

definition exists :: "('a \<Rightarrow> bool option) \<Rightarrow> vector \<Rightarrow> 'a heap \<Rightarrow> (error + bool) \<times> 'a heap" where
  "exists predicate c h =
     (case copy c h of
        (storage_copy, h1) \<Rightarrow> (exists_scan predicate storage_copy c h1, sp_release storage_copy h1))"

definition find_first ::
  "('a \<Rightarrow> bool option) \<Rightarrow> 'a \<Rightarrow> vector \<Rightarrow> 'a heap \<Rightarrow> (error + 'a) \<times> 'a heap" where
  "find_first predicate default_value c h =
     (case copy c h of
        (storage_copy, h1) \<Rightarrow>
          (find_first_scan predicate default_value storage_copy c h1, sp_release storage_copy h1))"

definition find_last ::
  "('a \<Rightarrow> bool option) \<Rightarrow> 'a \<Rightarrow> vector \<Rightarrow> 'a heap \<Rightarrow> (error + 'a) \<times> 'a heap" where
  "find_last predicate default_value c h =
     (case copy c h of
        (storage_copy, h1) \<Rightarrow>
          (find_last_scan predicate default_value storage_copy c h1, sp_release storage_copy h1))"

subsection \<open>The snapshot iterator\<close>

text \<open>
  A \<^verbatim>\<open>TStorage::const_iterator\<close> is a pointer into the buffer of one storage: the storage
  it points into (none for a value-initialised iterator) and an offset. Moving it is
  pointer arithmetic and checks nothing.
\<close>

type_synonym cursor = "handle \<times> int"

definition cursor_null :: cursor where
  "cursor_null = (None, 0)"

definition cursor_move :: "int \<Rightarrow> cursor \<Rightarrow> cursor" where
  "cursor_move d cur = (fst cur, snd cur + d)"

text \<open>\<^verbatim>\<open>vector::iterator\<close>: the fields \<^verbatim>\<open>_storage\<close>, \<^verbatim>\<open>_it\<close> and \<^verbatim>\<open>_end\<close>.\<close>

record iterator =
  it_storage :: handle
  it_it :: cursor
  it_end :: cursor

text \<open>\<^verbatim>\<open>iterator()\<close>, the constructor "for end iterator".\<close>

definition iterator_default :: iterator where
  "iterator_default = \<lparr>it_storage = None, it_it = cursor_null, it_end = cursor_null\<rparr>"

text \<open>\<^verbatim>\<open>begin()\<close>: \<^verbatim>\<open>_storage ? iterator(_storage, _storage->begin(), _storage->end()) : iterator()\<close>.\<close>

definition begin_it :: "vector \<Rightarrow> 'a heap \<Rightarrow> iterator \<times> 'a heap" where
  "begin_it c h =
     (case storage c of
        None \<Rightarrow> (iterator_default, h)
      | Some a \<Rightarrow>
          (\<lparr>it_storage = Some a, it_it = (Some a, 0),
            it_end = (Some a, int (length (vec_elems a h)))\<rparr>,
           sp_acquire (Some a) h))"

text \<open>\<^verbatim>\<open>end()\<close>.\<close>

definition end_it :: "vector \<Rightarrow> iterator" where
  "end_it c = iterator_default"

text \<open>\<^verbatim>\<open>operator*\<close>: the element under \<^verbatim>\<open>_it\<close>.\<close>

definition it_deref :: "iterator \<Rightarrow> 'a heap \<Rightarrow> error + 'a" where
  "it_deref i h =
     (case deref (fst (it_it i)) h of
        Inl e \<Rightarrow> Inl e
      | Inr s \<Rightarrow>
          if 0 \<le> snd (it_it i) \<and> snd (it_it i) < int (length (elems s))
          then Inr (elems s ! nat (snd (it_it i)))
          else Inl OutOfRange)"

text \<open>
  Prefix \<^verbatim>\<open>++\<close> and \<^verbatim>\<open>--\<close> move \<^verbatim>\<open>_it\<close> and return a reference to the iterator.
\<close>

definition it_pre_inc :: "iterator \<Rightarrow> iterator" where
  "it_pre_inc i = i\<lparr>it_it := cursor_move 1 (it_it i)\<rparr>"

definition it_pre_dec :: "iterator \<Rightarrow> iterator" where
  "it_pre_dec i = i\<lparr>it_it := cursor_move (- 1) (it_it i)\<rparr>"

text \<open>
  Postfix \<^verbatim>\<open>operator++(int)\<close> and \<^verbatim>\<open>operator--(int)\<close>: \<^verbatim>\<open>_it++; return *this;\<close>. The
  result is the returned copy (one more holder of the storage), the iterator afterwards,
  and the store.
\<close>

definition it_post_inc :: "iterator \<Rightarrow> 'a heap \<Rightarrow> iterator \<times> iterator \<times> 'a heap" where
  "it_post_inc i h =
     (let this = i\<lparr>it_it := cursor_move 1 (it_it i)\<rparr>
      in (this, this, sp_acquire (it_storage this) h))"

definition it_post_dec :: "iterator \<Rightarrow> 'a heap \<Rightarrow> iterator \<times> iterator \<times> 'a heap" where
  "it_post_dec i h =
     (let this = i\<lparr>it_it := cursor_move (- 1) (it_it i)\<rparr>
      in (this, this, sp_acquire (it_storage this) h))"

text \<open>\<^verbatim>\<open>operator==\<close> and \<^verbatim>\<open>operator!=\<close>.\<close>

definition it_eq :: "iterator \<Rightarrow> iterator \<Rightarrow> bool" where
  "it_eq this right =
     (if it_storage this = None
      then (if it_storage right = None then True else it_end right = it_it right)
      else (if it_storage right = None then it_it this = it_end this
            else it_it this = it_it right))"

definition it_neq :: "iterator \<Rightarrow> iterator \<Rightarrow> bool" where
  "it_neq this right = (\<not> it_eq this right)"

subsection \<open>The read-only view\<close>

text \<open>
  The static \<^verbatim>\<open>readonly_vector::_empty_storage\<close> is made once, by
  \<^verbatim>\<open>std::make_shared<TStorage>()\<close>, before any container exists: the storage at address 0
  of the initial store, held by the static pointer.
\<close>

definition empty_storage :: addr where
  "empty_storage = 0"

definition heap_init :: "bool list \<Rightarrow> 'a heap" where
  "heap_init fs =
     \<lparr>cells = (\<lambda>a. None)(empty_storage \<mapsto> \<lparr>elems = [], capacity = 0\<rparr>),
      use_count = (\<lambda>a. 0)(empty_storage := 1),
      next_addr = Suc empty_storage,
      faults = fs\<rparr>"

text \<open>\<^verbatim>\<open>readonly_vector\<close>: the field \<^verbatim>\<open>_storage\<close>.\<close>

record readonly_vector =
  rv_storage :: handle

text \<open>
  \<^verbatim>\<open>readonly_vector(const TStoragePtr&)\<close> through \<^verbatim>\<open>assign\<close>:
  \<^verbatim>\<open>_storage = !storage ? _empty_storage : storage\<close>.
\<close>

definition rv_new :: "handle \<Rightarrow> 'a heap \<Rightarrow> readonly_vector \<times> 'a heap" where
  "rv_new p h =
     (let q = (if p = None then Some empty_storage else p)
      in (\<lparr>rv_storage = q\<rparr>, sp_acquire q h))"

text \<open>\<^verbatim>\<open>read_only_copy()\<close>.\<close>

definition read_only_copy :: "vector \<Rightarrow> 'a heap \<Rightarrow> readonly_vector \<times> 'a heap" where
  "read_only_copy c h = rv_new (storage c) h"

text \<open>\<^verbatim>\<open>size()\<close>, \<^verbatim>\<open>empty()\<close> and \<^verbatim>\<open>at(pos)\<close> of the view.\<close>

definition rv_size :: "readonly_vector \<Rightarrow> 'a heap \<Rightarrow> error + nat" where
  "rv_size v h = (case deref (rv_storage v) h of Inl e \<Rightarrow> Inl e | Inr s \<Rightarrow> Inr (length (elems s)))"

definition rv_empty :: "readonly_vector \<Rightarrow> 'a heap \<Rightarrow> error + bool" where
  "rv_empty v h = (case deref (rv_storage v) h of Inl e \<Rightarrow> Inl e | Inr s \<Rightarrow> Inr (elems s = []))"

definition rv_at :: "readonly_vector \<Rightarrow> nat \<Rightarrow> 'a heap \<Rightarrow> error + 'a" where
  "rv_at v pos h = (case deref (rv_storage v) h of Inl e \<Rightarrow> Inl e | Inr s \<Rightarrow> vec_at pos (elems s))"

text \<open>
  The destructor of a view is implicit in the source: it destroys the member
  \<^verbatim>\<open>_storage\<close>, so the storage loses a holder.
\<close>

definition rv_destroy :: "readonly_vector \<Rightarrow> 'a heap \<Rightarrow> 'a heap" where
  "rv_destroy v h = sp_release (rv_storage v) h"

subsection \<open>Operations as data, and a plain reference sequence\<close>

text \<open>
  The mutating operations of the container, so that a run of them is a list. A caller
  that catches an exception can go on, so a run keeps every result and continues.
\<close>

datatype 'a op =
    PushFront 'a
  | PushBack 'a
  | EmplaceBack 'a
  | Remove "'a \<Rightarrow> bool option"
  | RemoveFirst "'a \<Rightarrow> bool option"
  | RemoveLast "'a \<Rightarrow> bool option"
  | Clear

datatype ret = Done | Count nat | Flag bool

definition returning ::
  "('r \<Rightarrow> ret) \<Rightarrow> (error + 'r) \<times> vector \<times> 'a heap \<Rightarrow> (error + ret) \<times> vector \<times> 'a heap" where
  "returning f x = (case x of (Inl e, c, h) \<Rightarrow> (Inl e, c, h) | (Inr r, c, h) \<Rightarrow> (Inr (f r), c, h))"

text \<open>A call that returned rather than threw.\<close>

definition succeeded :: "error + 'r \<Rightarrow> bool" where
  "succeeded r = (case r of Inl e \<Rightarrow> False | Inr u \<Rightarrow> True)"

fun apply_op :: "'a op \<Rightarrow> vector \<Rightarrow> 'a heap \<Rightarrow> (error + ret) \<times> vector \<times> 'a heap" where
  "apply_op (PushFront t) c h = returning (\<lambda>u. Done) (push_front t c h)"
| "apply_op (PushBack t) c h = returning (\<lambda>u. Done) (push_back t c h)"
| "apply_op (EmplaceBack t) c h = returning (\<lambda>u. Done) (emplace_back t c h)"
| "apply_op (Remove p) c h = returning Count (remove p c h)"
| "apply_op (RemoveFirst p) c h = returning Flag (removeFirst p c h)"
| "apply_op (RemoveLast p) c h = returning Flag (removeLast p c h)"
| "apply_op Clear c h = returning (\<lambda>u. Done) (clear c h)"

fun run :: "'a op list \<Rightarrow> vector \<Rightarrow> 'a heap \<Rightarrow> (error + ret) list \<times> vector \<times> 'a heap" where
  "run [] c h = ([], c, h)"
| "run (x # xs) c h =
     (case apply_op x c h of
        (r, c', h') \<Rightarrow> (case run xs c' h' of (rs, c'', h'') \<Rightarrow> (r # rs, c'', h'')))"

text \<open>The element sequence of a container: empty for a null \<^verbatim>\<open>_storage\<close>.\<close>

definition contents :: "vector \<Rightarrow> 'a heap \<Rightarrow> 'a list" where
  "contents c h = (case storage c of None \<Rightarrow> [] | Some a \<Rightarrow> vec_elems a h)"

text \<open>
  The reference sequence follows the words of the specification, not the source: prepend,
  append, filter out the matching elements, remove the first or the last match, empty.
  An element matches when the predicate returns true on it.
\<close>

definition matches :: "('a \<Rightarrow> bool option) \<Rightarrow> 'a \<Rightarrow> bool" where
  "matches p x = (p x = Some True)"

fun ref_remove_first :: "('a \<Rightarrow> bool) \<Rightarrow> 'a list \<Rightarrow> 'a list" where
  "ref_remove_first q [] = []"
| "ref_remove_first q (x # xs) = (if q x then xs else x # ref_remove_first q xs)"

definition ref_remove_last :: "('a \<Rightarrow> bool) \<Rightarrow> 'a list \<Rightarrow> 'a list" where
  "ref_remove_last q xs = rev (ref_remove_first q (rev xs))"

fun ref_op :: "'a op \<Rightarrow> 'a list \<Rightarrow> 'a list" where
  "ref_op (PushFront t) xs = t # xs"
| "ref_op (PushBack t) xs = xs @ [t]"
| "ref_op (EmplaceBack t) xs = xs @ [t]"
| "ref_op (Remove p) xs = filter (\<lambda>x. \<not> matches p x) xs"
| "ref_op (RemoveFirst p) xs = ref_remove_first (matches p) xs"
| "ref_op (RemoveLast p) xs = ref_remove_last (matches p) xs"
| "ref_op Clear xs = []"

fun ref_run :: "'a op list \<Rightarrow> 'a list \<Rightarrow> 'a list" where
  "ref_run [] xs = xs"
| "ref_run (x # ops) xs = ref_run ops (ref_op x xs)"

subsection \<open>Well-formed states\<close>

text \<open>
  What every reachable state satisfies, as far as one container sees it: the static empty
  storage is alive, empty and held by the static pointer, and a non-null \<^verbatim>\<open>_storage\<close>
  points to a live storage that has been allocated after it and that counts the container
  among its holders.
\<close>

definition heap_ok :: "'a heap \<Rightarrow> bool" where
  "heap_ok h \<longleftrightarrow>
     empty_storage < next_addr h \<and> 1 \<le> use_count h empty_storage \<and>
     (case cells h empty_storage of None \<Rightarrow> False | Some s \<Rightarrow> elems s = [])"

definition vector_ok :: "vector \<Rightarrow> 'a heap \<Rightarrow> bool" where
  "vector_ok c h \<longleftrightarrow>
     heap_ok h \<and>
     (case storage c of
        None \<Rightarrow> True
      | Some a \<Rightarrow> a \<noteq> empty_storage \<and> a < next_addr h \<and> cells h a \<noteq> None \<and> 1 \<le> use_count h a)"

text \<open>No library step of the rest of the run fails.\<close>

definition fault_free :: "'a heap \<Rightarrow> bool" where
  "fault_free h \<longleftrightarrow> False \<notin> set (faults h)"


text \<open>A predicate that never throws, and an operation whose predicate never does.\<close>

definition pure_pred :: "('a \<Rightarrow> bool option) \<Rightarrow> bool" where
  "pure_pred p \<longleftrightarrow> None \<notin> range p"

fun pure_op :: "'a op \<Rightarrow> bool" where
  "pure_op (Remove p) = pure_pred p"
| "pure_op (RemoveFirst p) = pure_pred p"
| "pure_op (RemoveLast p) = pure_pred p"
| "pure_op x = True"

text \<open>
  The outcomes that the library steps between the store \<open>h\<close> and a later store \<open>h'\<close> have
  drawn: a step has failed between the two exactly when \<open>False\<close> is among them.
\<close>

definition consumed :: "'a heap \<Rightarrow> 'a heap \<Rightarrow> bool list" where
  "consumed h h' = take (length (faults h) - length (faults h')) (faults h)"

text \<open>
  The predicate throws on an element that the operation applies it to, whatever else
  happens: \<^verbatim>\<open>remove\<close> applies it to every element, \<^verbatim>\<open>removeFirst\<close> to the elements up to
  the first match, \<^verbatim>\<open>removeLast\<close> to those from the end back to the last match.
\<close>

fun throws_before_match :: "('a \<Rightarrow> bool option) \<Rightarrow> 'a list \<Rightarrow> bool" where
  "throws_before_match p [] = False"
| "throws_before_match p (x # xs) =
     (case p x of None \<Rightarrow> True | Some True \<Rightarrow> False | Some False \<Rightarrow> throws_before_match p xs)"

fun pred_throws :: "'a op \<Rightarrow> 'a list \<Rightarrow> bool" where
  "pred_throws (Remove p) xs = (None \<in> set (map p xs))"
| "pred_throws (RemoveFirst p) xs = throws_before_match p xs"
| "pred_throws (RemoveLast p) xs = throws_before_match p (rev xs)"
| "pred_throws x xs = False"

text \<open>The container is the only holder of its storage, or holds none.\<close>

definition sole_holder :: "vector \<Rightarrow> 'a heap \<Rightarrow> bool" where
  "sole_holder c h \<longleftrightarrow> (case storage c of None \<Rightarrow> True | Some a \<Rightarrow> use_count h a = 1)"

text \<open>
  A storage that some holder other than the container \<open>c\<close> keeps alive: it exists, it has
  a holder, and it has a second one whenever \<open>c\<close> points to it too.
\<close>

definition held_elsewhere :: "addr \<Rightarrow> vector \<Rightarrow> 'a heap \<Rightarrow> bool" where
  "held_elsewhere a c h \<longleftrightarrow>
     a < next_addr h \<and> 1 \<le> use_count h a \<and> (storage c = Some a \<longrightarrow> 2 \<le> use_count h a)"

subsection \<open>Vocabulary for the effect of an operation on the store\<close>

text \<open>
  Between two stores: nothing but the outcomes consumed differs; nothing but the storage
  at \<open>b\<close> differs; every storage that existed before and is not in \<open>X\<close> is as it was.
\<close>

definition same_store :: "'a heap \<Rightarrow> 'a heap \<Rightarrow> bool" where
  "same_store h h' \<longleftrightarrow>
     next_addr h' = next_addr h \<and> use_count h' = use_count h \<and> cells h' = cells h \<and>
     set (faults h') \<subseteq> set (faults h)"

definition touches :: "addr \<Rightarrow> 'a heap \<Rightarrow> 'a heap \<Rightarrow> bool" where
  "touches b h h' \<longleftrightarrow>
     next_addr h' = next_addr h \<and> use_count h' = use_count h \<and>
     (\<forall>a. a \<noteq> b \<longrightarrow> cells h' a = cells h a) \<and> set (faults h') \<subseteq> set (faults h)"

definition rest_same :: "addr set \<Rightarrow> 'a heap \<Rightarrow> 'a heap \<Rightarrow> bool" where
  "rest_same X h h' \<longleftrightarrow>
     next_addr h \<le> next_addr h' \<and> set (faults h') \<subseteq> set (faults h) \<and>
     (\<forall>b. b < next_addr h \<and> b \<notin> X \<longrightarrow> cells h' b = cells h b \<and> use_count h' b = use_count h b)"

text \<open>
  The steps between \<open>h\<close> and \<open>h'\<close> have drawn a prefix of the outcomes in stock, and when
  \<open>ok\<close> holds none of those drawn is a failure.
\<close>

definition draws :: "'a heap \<Rightarrow> 'a heap \<Rightarrow> bool \<Rightarrow> bool" where
  "draws h h' ok \<longleftrightarrow> (\<exists>used. faults h = used @ faults h' \<and> (ok \<longrightarrow> False \<notin> set used))"

text \<open>The store \<open>h1\<close> is \<open>h\<close> with a new empty storage at \<open>n\<close>, held once.\<close>

definition fresh :: "addr \<Rightarrow> 'a heap \<Rightarrow> 'a heap \<Rightarrow> bool" where
  "fresh n h h1 \<longleftrightarrow>
     n = next_addr h \<and> next_addr h1 = Suc n \<and>
     cells h1 = (cells h)(n \<mapsto> \<lparr>elems = [], capacity = 0\<rparr>) \<and>
     use_count h1 = (use_count h)(n := 1) \<and> set (faults h1) \<subseteq> set (faults h)"

text \<open>The pointer \<open>p\<close> has lost one holder between \<open>h\<close> and \<open>h'\<close>.\<close>

definition released :: "handle \<Rightarrow> 'a heap \<Rightarrow> 'a heap \<Rightarrow> bool" where
  "released p h h' \<longleftrightarrow>
     (case p of
        None \<Rightarrow> True
      | Some b \<Rightarrow>
          if use_count h b \<le> 1 then cells h' b = None \<and> use_count h' b = 0
          else cells h' b = cells h b \<and> use_count h' b = use_count h b - 1)"

text \<open>
  The three things an operation can do to its container: leave it as it is; write the
  elements \<open>xs\<close> into its storage, which it alone holds; or let go of its storage and
  point to a new one with the elements \<open>xs\<close> (to none when \<open>xs\<close> is empty).
\<close>

definition kept :: "vector \<Rightarrow> 'a heap \<Rightarrow> vector \<Rightarrow> 'a heap \<Rightarrow> bool" where
  "kept c h c' h' \<longleftrightarrow> c' = c \<and> rest_same {} h h'"

definition in_place :: "'a list \<Rightarrow> vector \<Rightarrow> 'a heap \<Rightarrow> vector \<Rightarrow> 'a heap \<Rightarrow> bool" where
  "in_place xs c h c' h' \<longleftrightarrow>
     c' = c \<and>
     (\<exists>b. storage c = Some b \<and> use_count h b = 1 \<and> use_count h' b = 1 \<and> cells h' b \<noteq> None \<and>
          vec_elems b h' = xs \<and> rest_same {b} h h')"

definition swapped :: "'a list \<Rightarrow> vector \<Rightarrow> 'a heap \<Rightarrow> vector \<Rightarrow> 'a heap \<Rightarrow> bool" where
  "swapped xs c h c' h' \<longleftrightarrow>
     (case storage c' of
        None \<Rightarrow> xs = []
      | Some n \<Rightarrow> next_addr h \<le> n \<and> n < next_addr h' \<and> use_count h' n = 1 \<and> cells h' n \<noteq> None \<and>
          vec_elems n h' = xs) \<and>
     rest_same (set_option (storage c)) h h' \<and> released (storage c) h h'"

definition effect :: "vector \<Rightarrow> 'a heap \<Rightarrow> vector \<Rightarrow> 'a heap \<Rightarrow> bool" where
  "effect c h c' h' \<longleftrightarrow>
     kept c h c' h' \<or> (\<exists>ys. in_place ys c h c' h') \<or> (\<exists>ys. swapped ys c h c' h')"

definition wrote :: "'a list \<Rightarrow> vector \<Rightarrow> 'a heap \<Rightarrow> vector \<Rightarrow> 'a heap \<Rightarrow> bool" where
  "wrote xs c h c' h' \<longleftrightarrow> in_place xs c h c' h' \<or> swapped xs c h c' h'"

subsection \<open>An example state\<close>

text \<open>
  A container with the elements 1, 2 in a storage of its own at address 1; the number of
  holders of that storage and the outcomes in stock are parameters.
\<close>

definition demo_heap :: "nat \<Rightarrow> bool list \<Rightarrow> nat heap" where
  "demo_heap holders fs =
     \<lparr>cells = (\<lambda>a. None)(empty_storage \<mapsto> \<lparr>elems = [], capacity = 0\<rparr>,
                           Suc 0 \<mapsto> \<lparr>elems = [1, 2], capacity = 4\<rparr>),
      use_count = (\<lambda>a. 0)(empty_storage := 1, Suc 0 := holders),
      next_addr = 2,
      faults = fs\<rparr>"

definition demo_vector :: vector where
  "demo_vector = \<lparr>storage = Some (Suc 0)\<rparr>"

section \<open>Lemmas\<close>


subsection \<open>Library steps\<close>

lemma same_store_refl: "same_store h h"
  by (simp add: same_store_def)

lemma same_store_trans: "same_store h h1 \<Longrightarrow> same_store h1 h2 \<Longrightarrow> same_store h h2"
  by (auto simp: same_store_def)

lemma same_store_touches: "same_store h h' \<Longrightarrow> touches b h h'"
  by (simp add: same_store_def touches_def)

lemma touches_refl: "touches b h h"
  by (simp add: touches_def)

lemma touches_trans: "touches b h h1 \<Longrightarrow> touches b h1 h2 \<Longrightarrow> touches b h h2"
  by (auto simp: touches_def)

lemma touches_fault_free: "touches b h h' \<Longrightarrow> fault_free h \<Longrightarrow> fault_free h'"
  by (auto simp: touches_def fault_free_def)

lemma touches_elems: "touches b h h' \<Longrightarrow> a \<noteq> b \<Longrightarrow> vec_elems a h' = vec_elems a h"
  by (simp add: touches_def vec_elems_def)

lemma step_ok_same: "step_ok h = (b, h') \<Longrightarrow> same_store h h'"
  by (auto simp: step_ok_def same_store_def split: list.splits)

lemma step_ok_False: "step_ok h = (False, h') \<Longrightarrow> \<not> fault_free h"
  by (auto simp: step_ok_def fault_free_def split: list.splits)

lemma construct_n_same: "construct_n n h = (b, h') \<Longrightarrow> same_store h h'"
proof (induction n arbitrary: h)
  case 0
  then show ?case by (simp add: same_store_def)
next
  case (Suc n)
  obtain b1 h1 where s: "step_ok h = (b1, h1)" by (cases "step_ok h")
  show ?case
  proof (cases b1)
    case True
    with Suc.prems s have "construct_n n h1 = (b, h')" by simp
    then have "same_store h1 h'" by (rule Suc.IH)
    with step_ok_same [OF s] show ?thesis by (rule same_store_trans)
  next
    case False
    with Suc.prems s have "h' = h1" by simp
    with step_ok_same [OF s] show ?thesis by simp
  qed
qed

lemma construct_n_False: "construct_n n h = (False, h') \<Longrightarrow> \<not> fault_free h"
proof (induction n arbitrary: h)
  case 0
  then show ?case by simp
next
  case (Suc n)
  obtain b1 h1 where s: "step_ok h = (b1, h1)" by (cases "step_ok h")
  show ?case
  proof (cases b1)
    case True
    with Suc.prems s have "construct_n n h1 = (False, h')" by simp
    then have "\<not> fault_free h1" by (rule Suc.IH)
    with step_ok_same [OF s] show ?thesis by (auto simp: same_store_def fault_free_def)
  next
    case False
    with s show ?thesis by (auto dest: step_ok_False)
  qed
qed

subsection \<open>The members of the standard vector\<close>

lemma vec_reserve_Inl:
  "vec_reserve n a h = (Inl e, h') \<Longrightarrow> same_store h h' \<and> (cells h a = None \<or> \<not> fault_free h)"
  by (auto simp: vec_reserve_def same_store_refl split: option.splits if_splits bool.splits prod.splits
      dest: step_ok_same step_ok_False)

lemma vec_reserve_Inr:
  "vec_reserve n a h = (Inr u, h') \<Longrightarrow>
     cells h a \<noteq> None \<and> cells h' a \<noteq> None \<and> vec_elems a h' = vec_elems a h"
  by (auto simp: vec_reserve_def vec_elems_def same_store_def
      split: option.splits if_splits bool.splits prod.splits dest!: step_ok_same)

lemma vec_reserve_touches: "vec_reserve n a h = (r, h') \<Longrightarrow> touches a h h'"
  by (auto simp: vec_reserve_def touches_def same_store_def
      split: option.splits if_splits bool.splits prod.splits dest!: step_ok_same)

lemma vec_insert_Inl:
  "vec_insert pos xs a h = (Inl e, h') \<Longrightarrow> same_store h h' \<and> (cells h a = None \<or> \<not> fault_free h)"
proof -
  assume v: "vec_insert pos xs a h = (Inl e, h')"
  show ?thesis
  proof (cases "cells h a")
    case None
    with v show ?thesis by (simp add: vec_insert_def same_store_refl)
  next
    case (Some s)
    obtain b1 h1 where g: "(if length (elems s) + length xs \<le> capacity s then (True, h) else step_ok h)
        = (b1, h1)" by (cases "if length (elems s) + length xs \<le> capacity s then (True, h) else step_ok h")
    then have s1: "same_store h h1" by (auto simp: same_store_refl split: if_splits dest: step_ok_same)
    show ?thesis
    proof (cases b1)
      case False
      with g have "\<not> fault_free h" by (auto split: if_splits dest: step_ok_False)
      moreover from v Some g False have "h' = h1" by (simp add: vec_insert_def)
      ultimately show ?thesis using s1 by simp
    next
      case True
      obtain b2 h2 where c: "construct_n (length xs) h1 = (b2, h2)"
        by (cases "construct_n (length xs) h1")
      with v Some g True have b2: "\<not> b2" and h': "h' = h2"
        by (auto simp: vec_insert_def split: bool.splits)
      from c b2 have "\<not> fault_free h1" by (auto dest: construct_n_False)
      with s1 have "\<not> fault_free h" by (auto simp: same_store_def fault_free_def)
      moreover from s1 construct_n_same [OF c] have "same_store h h2" by (rule same_store_trans)
      ultimately show ?thesis using h' by simp
    qed
  qed
qed

lemma vec_insert_Inr:
  "vec_insert pos xs a h = (Inr u, h') \<Longrightarrow>
     cells h a \<noteq> None \<and> cells h' a \<noteq> None \<and>
     vec_elems a h' = take pos (vec_elems a h) @ xs @ drop pos (vec_elems a h)"
  by (auto simp: vec_insert_def vec_elems_def same_store_def
      split: option.splits if_splits bool.splits prod.splits dest!: step_ok_same construct_n_same)

lemma vec_insert_touches: "vec_insert pos xs a h = (r, h') \<Longrightarrow> touches a h h'"
proof -
  assume v: "vec_insert pos xs a h = (r, h')"
  show ?thesis
  proof (cases "cells h a")
    case None
    with v show ?thesis by (simp add: vec_insert_def touches_refl)
  next
    case (Some s)
    obtain b1 h1 where g: "(if length (elems s) + length xs \<le> capacity s then (True, h) else step_ok h)
        = (b1, h1)" by (cases "if length (elems s) + length xs \<le> capacity s then (True, h) else step_ok h")
    then have s1: "same_store h h1" by (auto simp: same_store_refl split: if_splits dest: step_ok_same)
    obtain b2 h2 where c: "construct_n (length xs) h1 = (b2, h2)"
      by (cases "construct_n (length xs) h1")
    from s1 construct_n_same [OF c] have s2: "same_store h h2" by (rule same_store_trans)
    from v Some g c have "h' = h1 \<or> h' = h2 \<or> (\<exists>s'. h' = h2\<lparr>cells := (cells h2)(a \<mapsto> s')\<rparr>)"
      by (auto simp: vec_insert_def split: bool.splits)
    with s1 s2 show ?thesis by (auto simp: same_store_def touches_def)
  qed
qed

lemma vec_append_touches: "vec_append xs a h = (r, h') \<Longrightarrow> touches a h h'"
  by (auto simp: vec_append_def dest: vec_insert_touches)

lemma vec_append_Inl:
  "vec_append xs a h = (Inl e, h') \<Longrightarrow> same_store h h' \<and> (cells h a = None \<or> \<not> fault_free h)"
  unfolding vec_append_def by (rule vec_insert_Inl)

lemma vec_append_Inr:
  "vec_append xs a h = (Inr u, h') \<Longrightarrow>
     cells h a \<noteq> None \<and> cells h' a \<noteq> None \<and> vec_elems a h' = vec_elems a h @ xs"
  by (auto simp: vec_append_def dest!: vec_insert_Inr)

lemma vec_push_back_touches: "vec_push_back t a h = (r, h') \<Longrightarrow> touches a h h'"
  by (auto simp: vec_push_back_def dest: vec_append_touches)

lemma vec_push_back_Inl:
  "vec_push_back t a h = (Inl e, h') \<Longrightarrow> same_store h h' \<and> (cells h a = None \<or> \<not> fault_free h)"
  unfolding vec_push_back_def by (rule vec_append_Inl)

lemma vec_push_back_Inr:
  "vec_push_back t a h = (Inr u, h') \<Longrightarrow>
     cells h a \<noteq> None \<and> cells h' a \<noteq> None \<and> vec_elems a h' = vec_elems a h @ [t]"
  by (auto simp: vec_push_back_def dest!: vec_append_Inr)

lemma vec_erase_touches: "vec_erase i a h = (r, h') \<Longrightarrow> touches a h h'"
  by (auto simp: vec_erase_def touches_def split: option.splits)

lemma vec_erase_Some:
  "cells h a \<noteq> None \<Longrightarrow>
     \<exists>h'. vec_erase i a h = (Inr (), h') \<and> cells h' a \<noteq> None \<and>
          vec_elems a h' = take i (vec_elems a h) @ drop (Suc i) (vec_elems a h)"
  by (auto simp: vec_erase_def vec_elems_def)

subsection \<open>Sequencing\<close>

lemma then_do_Inr:
  assumes "then_do m k h = (Inr r, h')"
  obtains h1 where "m h = (Inr (), h1)" and "k h1 = (Inr r, h')"
  using assms by (auto simp: then_do_def split: prod.splits sum.splits)

lemma then_do_Inl:
  assumes "then_do m k h = (Inl e, h')"
  obtains (first) "m h = (Inl e, h')"
  | (second) h1 where "m h = (Inr (), h1)" and "k h1 = (Inl e, h')"
  using assms by (auto simp: then_do_def split: prod.splits sum.splits)

lemma then_do_touches:
  assumes "then_do m k h = (r, h')"
    and "\<And>r1 h1. m h = (r1, h1) \<Longrightarrow> touches b h h1"
    and "\<And>h1 r2 h2. m h = (Inr (), h1) \<Longrightarrow> k h1 = (r2, h2) \<Longrightarrow> touches b h1 h2"
  shows "touches b h h'"
proof (cases "m h")
  case (Pair r1 h1)
  show ?thesis
  proof (cases r1)
    case (Inl e)
    with Pair assms(1) have "h' = h1" by (simp add: then_do_def)
    with assms(2) [OF Pair] show ?thesis by simp
  next
    case (Inr u)
    with Pair assms(1) have k: "k h1 = (r, h')" by (simp add: then_do_def)
    from Pair Inr have m: "m h = (Inr (), h1)" by simp
    from assms(2) [OF Pair] assms(3) [OF m k] show ?thesis by (rule touches_trans)
  qed
qed

text \<open>
  A sequence of two steps on the storage at \<open>b\<close> fails only if the store has a fault in
  stock, provided each step does so.
\<close>

lemma then_do_fails:
  assumes "then_do m k h = (Inl e, h')" and live: "cells h b \<noteq> None"
    and m_touches: "\<And>r1 h1. m h = (r1, h1) \<Longrightarrow> touches b h h1"
    and m_fails: "\<And>h1. cells h b \<noteq> None \<Longrightarrow> m h = (Inl e, h1) \<Longrightarrow> \<not> fault_free h"
    and m_live: "\<And>h1. cells h b \<noteq> None \<Longrightarrow> m h = (Inr (), h1) \<Longrightarrow> cells h1 b \<noteq> None"
    and k_fails: "\<And>h1 h2. cells h1 b \<noteq> None \<Longrightarrow> k h1 = (Inl e, h2) \<Longrightarrow> \<not> fault_free h1"
  shows "\<not> fault_free h"
  using assms(1)
proof (cases rule: then_do_Inl)
  case first
  with live show ?thesis by (rule m_fails)
next
  case (second h1)
  from k_fails [OF m_live [OF live second(1)] second(2)] have "\<not> fault_free h1" .
  with touches_fault_free [OF m_touches [OF second(1)]] show ?thesis by blast
qed


subsection \<open>The loops\<close>

lemma copy_unless_touches: "copy_unless p xs count n h = (r, h') \<Longrightarrow> touches n h h'"
proof (induction xs arbitrary: count h)
  case Nil
  then show ?case by (simp add: touches_refl)
next
  case (Cons x xs)
  show ?case
  proof (cases "p x")
    case None
    with Cons.prems show ?thesis by (simp add: touches_refl)
  next
    case (Some b)
    show ?thesis
    proof (cases b)
      case True
      with Some Cons.prems have "copy_unless p xs (Suc count) n h = (r, h')" by simp
      then show ?thesis by (rule Cons.IH)
    next
      case False
      obtain r1 h1 where pb: "vec_push_back x n h = (r1, h1)" by (cases "vec_push_back x n h")
      have t1: "touches n h h1" using pb by (rule vec_push_back_touches)
      show ?thesis
      proof (cases r1)
        case (Inl e)
        with Some False pb Cons.prems have "h' = h1" by simp
        with t1 show ?thesis by simp
      next
        case (Inr u)
        with Some False pb Cons.prems have "copy_unless p xs count n h1 = (r, h')" by simp
        then have "touches n h1 h'" by (rule Cons.IH)
        with t1 show ?thesis by (rule touches_trans)
      qed
    qed
  qed
qed

lemma copy_unless_Inr:
  "copy_unless p xs count n h = (Inr k, h') \<Longrightarrow> cells h n \<noteq> None \<Longrightarrow>
     k = count + length (filter (matches p) xs) \<and>
     vec_elems n h' = vec_elems n h @ filter (\<lambda>x. \<not> matches p x) xs \<and>
     cells h' n \<noteq> None"
proof (induction xs arbitrary: count h)
  case Nil
  then show ?case by simp
next
  case (Cons x xs)
  show ?case
  proof (cases "p x")
    case None
    with Cons.prems show ?thesis by simp
  next
    case (Some b)
    show ?thesis
    proof (cases b)
      case True
      with Some Cons.prems have "copy_unless p xs (Suc count) n h = (Inr k, h')" by simp
      from Cons.IH [OF this Cons.prems(2)] Some True show ?thesis by (auto simp: matches_def)
    next
      case False
      obtain r1 h1 where pb: "vec_push_back x n h = (r1, h1)" by (cases "vec_push_back x n h")
      with Some False Cons.prems obtain u where r1: "r1 = Inr u"
        and rec: "copy_unless p xs count n h1 = (Inr k, h')"
        by (cases r1) auto
      from pb r1 have "vec_push_back x n h = (Inr u, h1)" by simp
      from vec_push_back_Inr [OF this] have c1: "cells h1 n \<noteq> None"
        and e1: "vec_elems n h1 = vec_elems n h @ [x]" by simp_all
      from Cons.IH [OF rec c1] e1 Some False show ?thesis by (auto simp: matches_def)
    qed
  qed
qed

lemma copy_unless_Inl:
  "copy_unless p xs count n h = (Inl e, h') \<Longrightarrow> cells h n \<noteq> None \<Longrightarrow>
     \<not> fault_free h \<or> \<not> pure_pred p"
proof (induction xs arbitrary: count h)
  case Nil
  then show ?case by simp
next
  case (Cons x xs)
  show ?case
  proof (cases "p x")
    case None
    then have "None \<in> range p" by (metis rangeI)
    then show ?thesis by (simp add: pure_pred_def)
  next
    case (Some b)
    show ?thesis
    proof (cases b)
      case True
      with Some Cons.prems have "copy_unless p xs (Suc count) n h = (Inl e, h')" by simp
      from Cons.IH [OF this Cons.prems(2)] show ?thesis .
    next
      case False
      obtain r1 h1 where pb: "vec_push_back x n h = (r1, h1)" by (cases "vec_push_back x n h")
      show ?thesis
      proof (cases r1)
        case (Inl e1)
        with pb Cons.prems(2) show ?thesis by (auto dest: vec_push_back_Inl)
      next
        case (Inr u)
        with pb Some False Cons.prems have rec: "copy_unless p xs count n h1 = (Inl e, h')"
          by simp
        from pb Inr have c1: "cells h1 n \<noteq> None" by (auto dest!: vec_push_back_Inr)
        from Cons.IH [OF rec c1] touches_fault_free [OF vec_push_back_touches [OF pb]]
        show ?thesis by blast
      qed
    qed
  qed
qed

text \<open>The erasing loop: what it returns and what it leaves, from position \<open>i\<close> on.\<close>

lemma remove_loop_Inr:
  "remove_loop p i xs count = (Inr k, ys) \<Longrightarrow>
     k = count + length (filter (matches p) (drop i xs)) \<and>
     ys = take i xs @ filter (\<lambda>x. \<not> matches p x) (drop i xs)"
proof (induction p i xs count rule: remove_loop.induct)
  case (1 p i xs count)
  show ?case
  proof (cases "i < length xs")
    case False
    with "1.prems" show ?thesis by (simp add: remove_loop.simps [of p i xs count])
  next
    case True
    then have d: "drop i xs = xs ! i # drop (Suc i) xs" by (simp add: Cons_nth_drop_Suc)
    show ?thesis
    proof (cases "p (xs ! i)")
      case None
      with True "1.prems" show ?thesis by (simp add: remove_loop.simps [of p i xs count])
    next
      case (Some b)
      show ?thesis
      proof (cases b)
        case False
        then have bF: "b = False" by simp
        from bF Some True "1.prems" have "remove_loop p (Suc i) xs count = (Inr k, ys)"
          by (simp add: remove_loop.simps [of p i xs count])
        from "1.IH"(2) [OF True Some bF this] d Some bF True show ?thesis
          by (simp add: matches_def take_Suc_conv_app_nth)
      next
        case True': True
        then have bT: "b = True" by simp
        from bT Some True "1.prems"
        have "remove_loop p i (take i xs @ drop (Suc i) xs) (Suc count) = (Inr k, ys)"
          by (simp add: remove_loop.simps [of p i xs count])
        from "1.IH"(1) [OF True Some bT this] d Some bT True show ?thesis
          by (simp add: matches_def min_def)
      qed
    qed
  qed
qed

lemma remove_loop_Inl: "remove_loop p i xs count = (Inl e, ys) \<Longrightarrow> \<not> pure_pred p"
proof (induction p i xs count rule: remove_loop.induct)
  case (1 p i xs count)
  show ?case
  proof (cases "i < length xs")
    case False
    with "1.prems" show ?thesis by (simp add: remove_loop.simps [of p i xs count])
  next
    case True
    show ?thesis
    proof (cases "p (xs ! i)")
      case None
      then have "None \<in> range p" by (metis rangeI)
      then show ?thesis by (simp add: pure_pred_def)
    next
      case (Some b)
      show ?thesis
      proof (cases b)
        case False
        then have bF: "b = False" by simp
        from bF Some True "1.prems" have "remove_loop p (Suc i) xs count = (Inl e, ys)"
          by (simp add: remove_loop.simps [of p i xs count])
        from "1.IH"(2) [OF True Some bF this] show ?thesis .
      next
        case True': True
        then have bT: "b = True" by simp
        from bT Some True "1.prems"
        have "remove_loop p i (take i xs @ drop (Suc i) xs) (Suc count) = (Inl e, ys)"
          by (simp add: remove_loop.simps [of p i xs count])
        from "1.IH"(1) [OF True Some bT this] show ?thesis .
      qed
    qed
  qed
qed

text \<open>\<^verbatim>\<open>find_if\<close> finds the element that the reference removes.\<close>

lemma find_if_Inr:
  "find_if p xs = Inr i \<Longrightarrow>
     i \<le> length xs \<and> (i < length xs \<longleftrightarrow> (\<exists>x \<in> set xs. matches p x)) \<and>
     ref_remove_first (matches p) xs = take i xs @ drop (Suc i) xs"
proof (induction xs arbitrary: i)
  case Nil
  then show ?case by simp
next
  case (Cons x xs)
  show ?case
  proof (cases "p x")
    case None
    with Cons.prems show ?thesis by simp
  next
    case (Some b)
    show ?thesis
    proof (cases b)
      case True
      with Some Cons.prems show ?thesis by (auto simp: matches_def)
    next
      case False
      with Some Cons.prems obtain j where j: "find_if p xs = Inr j" and i: "i = Suc j"
        by (auto split: sum.splits)
      from Cons.IH [OF j] i Some False show ?thesis by (auto simp: matches_def)
    qed
  qed
qed

lemma find_if_Inl: "find_if p xs = Inl e \<Longrightarrow> \<not> pure_pred p"
proof (induction xs)
  case Nil
  then show ?case by simp
next
  case (Cons x xs)
  show ?case
  proof (cases "p x")
    case None
    then have "None \<in> range p" by (metis rangeI)
    then show ?thesis by (simp add: pure_pred_def)
  next
    case (Some b)
    with Cons show ?thesis by (cases b) (auto split: sum.splits)
  qed
qed

lemma ref_remove_first_none: "\<not> (\<exists>x \<in> set xs. q x) \<Longrightarrow> ref_remove_first q xs = xs"
  by (induction xs) auto

lemma rev_remove_at:
  assumes "j < length xs"
  shows "rev (take j (rev xs) @ drop (Suc j) (rev xs))
           = take (length xs - 1 - j) xs @ drop (Suc (length xs - 1 - j)) xs"
proof -
  from assms have "Suc (length xs - 1 - j) = length xs - j" by simp
  then show ?thesis by (simp add: take_rev drop_rev)
qed


subsection \<open>The scope of the new storage\<close>

lemma new_storage_Inl: "new_storage h = (Inl e, h') \<Longrightarrow> same_store h h' \<and> \<not> fault_free h"
proof -
  assume n: "new_storage h = (Inl e, h')"
  obtain b1 h1 where s1: "step_ok h = (b1, h1)" by (cases "step_ok h")
  obtain b2 h2 where s2: "step_ok h1 = (b2, h2)" by (cases "step_ok h1")
  note t1 = step_ok_same [OF s1] and t2 = step_ok_same [OF s2]
  show ?thesis
  proof (cases b1)
    case False
    with n s1 have "h' = h1" by (simp add: new_storage_def)
    with t1 s1 False show ?thesis by (auto dest: step_ok_False)
  next
    case True
    with n s1 s2 have b2: "\<not> b2" and h': "h' = h2"
      by (auto simp: new_storage_def split: bool.splits)
    from s2 b2 have "\<not> fault_free h1" by (auto dest: step_ok_False)
    with t1 have "\<not> fault_free h" by (auto simp: same_store_def fault_free_def)
    with same_store_trans [OF t1 t2] h' show ?thesis by simp
  qed
qed

lemma new_storage_Inr: "new_storage h = (Inr n, h') \<Longrightarrow> fresh n h h'"
proof -
  assume n: "new_storage h = (Inr n, h')"
  obtain b1 h1 where s1: "step_ok h = (b1, h1)" by (cases "step_ok h")
  obtain b2 h2 where s2: "step_ok h1 = (b2, h2)" by (cases "step_ok h1")
  from same_store_trans [OF step_ok_same [OF s1] step_ok_same [OF s2]]
  have "same_store h h2" .
  moreover from n s1 s2 have "n = next_addr h2 \<and>
      h' = h2\<lparr>cells := (cells h2)(next_addr h2 \<mapsto> \<lparr>elems = [], capacity = 0\<rparr>),
              use_count := (use_count h2)(next_addr h2 := 1),
              next_addr := Suc (next_addr h2)\<rparr>"
    by (auto simp: new_storage_def split: bool.splits)
  ultimately show ?thesis by (simp add: fresh_def same_store_def)
qed

lemma with_new_storage_cases:
  assumes "with_new_storage body c h = (r, c', h')"
  obtains (no_memory) e where "r = Inl e" and "c' = c" and "same_store h h'" and "\<not> fault_free h"
  | (ran) n h1 h2 where "fresh n h h1" and "body n h1 = (r, c', h2)"
      and "h' = sp_release (Some n) h2"
proof (cases "new_storage h")
  case (Pair r0 h1)
  show ?thesis
  proof (cases r0)
    case (Inl e)
    with Pair assms have "r = Inl e" "c' = c" "h' = h1" by (simp_all add: with_new_storage_def)
    moreover from Pair Inl have "same_store h h1 \<and> \<not> fault_free h" by (auto dest: new_storage_Inl)
    ultimately show ?thesis using no_memory by simp
  next
    case (Inr n)
    with Pair have f: "fresh n h h1" by (auto dest: new_storage_Inr)
    obtain h2 where "body n h1 = (r, c', h2)" and "h' = sp_release (Some n) h2"
      using assms Pair Inr by (auto simp: with_new_storage_def split: prod.splits)
    with f show ?thesis using ran by simp
  qed
qed

lemma same_store_kept: "same_store h h' \<Longrightarrow> kept c h c h'"
  by (simp add: same_store_def kept_def rest_same_def)

lemma kept_refl: "kept c h c h"
  by (simp add: kept_def rest_same_def)

lemma fresh_elems_new: "fresh n h h1 \<Longrightarrow> vec_elems n h1 = [] \<and> cells h1 n \<noteq> None"
  by (simp add: fresh_def vec_elems_def)

lemma fresh_contents:
  "fresh n h h1 \<Longrightarrow> vector_ok c h \<Longrightarrow> storage c = Some a \<Longrightarrow> vec_elems a h1 = vec_elems a h \<and> a \<noteq> n"
  by (auto simp: fresh_def vec_elems_def vector_ok_def)

lemma fresh_fault_free: "fresh n h h1 \<Longrightarrow> fault_free h \<Longrightarrow> fault_free h1"
  by (auto simp: fresh_def fault_free_def)

text \<open>The new storage is dropped again: nothing that existed before has changed.\<close>

lemma discard_new:
  assumes "fresh n h h1" and "touches n h1 h2"
  shows "kept c h c (sp_release (Some n) h2)"
  using assms
  by (auto simp: fresh_def touches_def kept_def rest_same_def sp_release_def)

text \<open>\<^verbatim>\<open>_storage = newStorage\<close> and the end of the scope.\<close>

lemma swap_new:
  assumes "fresh n h h1" and "touches n h1 h2" and "cells h2 n \<noteq> None"
    and "vector_ok c h"
    and "assign_storage (Some n) c h2 = (c', h3)"
  shows "swapped (vec_elems n h2) c h c' (sp_release (Some n) h3)"
proof (cases "storage c")
  case None
  with assms show ?thesis
    by (auto simp: fresh_def touches_def swapped_def rest_same_def released_def sp_release_def
        sp_acquire_def assign_storage_def vec_elems_def)
next
  case (Some a)
  with assms(1,4) have "a \<noteq> n" by (auto simp: fresh_def vector_ok_def)
  with Some assms show ?thesis
    by (auto simp: fresh_def touches_def swapped_def rest_same_def released_def sp_release_def
        sp_acquire_def assign_storage_def vec_elems_def)
qed

text \<open>\<^verbatim>\<open>_storage.reset()\<close> and the end of the scope.\<close>

lemma reset_new:
  assumes "fresh n h h1" and "touches n h1 h2"
    and "vector_ok c h"
    and "reset_storage c h2 = (c', h3)"
  shows "swapped [] c h c' (sp_release (Some n) h3)"
proof (cases "storage c")
  case None
  with assms show ?thesis
    by (auto simp: fresh_def touches_def swapped_def rest_same_def released_def sp_release_def
        reset_storage_def)
next
  case (Some a)
  with assms(1,3) have "a \<noteq> n" by (auto simp: fresh_def vector_ok_def)
  with Some assms show ?thesis
    by (auto simp: fresh_def touches_def swapped_def rest_same_def released_def sp_release_def
        reset_storage_def)
qed

lemma reset_swapped: "reset_storage c h = (c', h') \<Longrightarrow> swapped [] c h c' h'"
  by (auto simp: swapped_def rest_same_def released_def sp_release_def reset_storage_def
      split: option.splits if_splits)

lemma in_place_write:
  assumes "storage c = Some a" and "use_count h a = 1" and "touches a h h'" and "cells h' a \<noteq> None"
  shows "in_place (vec_elems a h') c h c h'"
  using assms by (auto simp: in_place_def touches_def rest_same_def)

lemma use_count_one: "sp_use_count p h = 1 \<Longrightarrow> \<exists>a. p = Some a \<and> use_count h a = 1"
  by (cases p) (simp_all add: sp_use_count_def)

text \<open>
  The copy branch of the three insertions: when filling the new storage \<open>n\<close> touches
  nothing else, builds \<open>xs\<close>, and fails only on a fault in stock.
\<close>

lemma fill_then_swap_effect:
  assumes ok: "vector_ok c h"
    and run: "with_new_storage (\<lambda>n. fill_then_swap (fill n) n c) c h = (r, c', h')"
    and t: "\<And>n h1 r1 h2. fill n h1 = (r1, h2) \<Longrightarrow> touches n h1 h2"
    and b: "\<And>n h1 u h2. fresh n h h1 \<Longrightarrow> fill n h1 = (Inr u, h2)
              \<Longrightarrow> cells h2 n \<noteq> None \<and> vec_elems n h2 = xs"
    and f: "\<And>n h1 e h2. fresh n h h1 \<Longrightarrow> fill n h1 = (Inl e, h2) \<Longrightarrow> \<not> fault_free h1"
  shows "(\<exists>e. r = Inl e \<and> \<not> fault_free h \<and> kept c h c' h') \<or> (r = Inr () \<and> swapped xs c h c' h')"
  using run
proof (cases rule: with_new_storage_cases)
  case (no_memory e)
  then show ?thesis by (auto intro: same_store_kept)
next
  case (ran n h1 h2)
  obtain r1 h3 where fl: "fill n h1 = (r1, h3)" by (cases "fill n h1")
  have t3: "touches n h1 h3" using fl by (rule t)
  show ?thesis
  proof (cases r1)
    case (Inl e)
    with fl ran(2) have "r = Inl e" "c' = c" "h2 = h3" by (simp_all add: fill_then_swap_def)
    moreover from fl Inl f [OF ran(1)] have "\<not> fault_free h1" by simp
    with fresh_fault_free [OF ran(1)] have "\<not> fault_free h" by blast
    ultimately show ?thesis using discard_new [OF ran(1) t3] ran(3) by simp
  next
    case (Inr u)
    with fl ran(2) have r: "r = Inr ()" and a: "assign_storage (Some n) c h3 = (c', h2)"
      by (auto simp: fill_then_swap_def split: prod.splits)
    from fl Inr have "fill n h1 = (Inr u, h3)" by simp
    from b [OF ran(1) this] have c3: "cells h3 n \<noteq> None" and e3: "vec_elems n h3 = xs" by simp_all
    from swap_new [OF ran(1) t3 c3 ok a] e3 ran(3) r show ?thesis by simp
  qed
qed


subsection \<open>The effect of each operation\<close>

lemma push_back_effect:
  assumes ok: "vector_ok c h" and run: "push_back t c h = (r, c', h')"
  shows "(\<exists>e. r = Inl e \<and> \<not> fault_free h \<and> kept c h c' h') \<or>
         (r = Inr () \<and> wrote (contents c h @ [t]) c h c' h')"
proof (cases "sp_use_count (storage c) h = 1")
  case True
  from use_count_one [OF True] obtain a where a: "storage c = Some a" and one: "use_count h a = 1"
    by blast
  from ok a have live: "cells h a \<noteq> None" by (simp add: vector_ok_def)
  from run True a have pb: "vec_push_back t a h = (r, h')" and c': "c' = c"
    by (auto simp: push_back_def split: prod.splits)
  show ?thesis
  proof (cases r)
    case (Inl e)
    with pb live have "same_store h h'" and "\<not> fault_free h"
      by (auto dest: vec_push_back_Inl)
    with Inl c' show ?thesis by (auto intro: same_store_kept)
  next
    case (Inr u)
    with pb have "cells h' a \<noteq> None" and e: "vec_elems a h' = vec_elems a h @ [t]"
      by (auto dest!: vec_push_back_Inr)
    from in_place_write [OF a one vec_push_back_touches [OF pb] this(1)] e a c' Inr
    show ?thesis by (simp add: wrote_def contents_def)
  qed
next
  case False
  let ?copy = "\<lambda>n. case storage c of
                      None \<Rightarrow> vec_reserve 4 n
                    | Some a \<Rightarrow>
                        (\<lambda>h1. then_do (vec_reserve (length (vec_elems a h1) + 1 + 4) n)
                                (vec_append (vec_elems a h1) n) h1)"
  let ?fill = "\<lambda>n. then_do (?copy n) (vec_push_back t n)"
  from run False have w: "with_new_storage (\<lambda>n. fill_then_swap (?fill n) n c) c h = (r, c', h')"
    by (simp add: push_back_def)
  have tc: "touches n h1 h2" if "?copy n h1 = (r1, h2)" for n h1 r1 h2
    using that
    by (auto split: option.splits
        elim!: then_do_touches vec_reserve_touches vec_append_touches)
  have t: "touches n h1 h2" if "?fill n h1 = (r1, h2)" for n h1 r1 h2
    using that by (rule then_do_touches) (auto elim!: tc vec_push_back_touches)
  have bc: "cells h2 n \<noteq> None \<and> vec_elems n h2 = contents c h"
    if f: "fresh n h h1" and m: "?copy n h1 = (Inr u, h2)" for n h1 u h2
  proof (cases "storage c")
    case None
    with m fresh_elems_new [OF f] show ?thesis
      by (auto simp: contents_def dest!: vec_reserve_Inr)
  next
    case (Some a)
    with m obtain h4 where "vec_reserve (length (vec_elems a h1) + 1 + 4) n h1 = (Inr (), h4)"
      and "vec_append (vec_elems a h1) n h4 = (Inr (), h2)"
      by (auto elim: then_do_Inr)
    with fresh_elems_new [OF f] fresh_contents [OF f ok Some] Some show ?thesis
      by (auto simp: contents_def dest!: vec_reserve_Inr vec_append_Inr)
  qed
  have fc: "\<not> fault_free h1" if f: "fresh n h h1" and m: "?copy n h1 = (Inl e, h2)" for n h1 e h2
  proof (cases "storage c")
    case None
    with m fresh_elems_new [OF f] show ?thesis by (auto dest!: vec_reserve_Inl)
  next
    case (Some a)
    with m have "then_do (vec_reserve (length (vec_elems a h1) + 1 + 4) n)
                   (vec_append (vec_elems a h1) n) h1 = (Inl e, h2)" by simp
    then show ?thesis
    proof (rule then_do_fails [where b = n])
      show "cells h1 n \<noteq> None" using fresh_elems_new [OF f] by simp
    qed (auto dest: vec_reserve_touches vec_reserve_Inl vec_reserve_Inr vec_append_Inl)
  qed
  have b: "cells h2 n \<noteq> None \<and> vec_elems n h2 = contents c h @ [t]"
    if f: "fresh n h h1" and r: "?fill n h1 = (Inr u, h2)" for n h1 u h2
  proof -
    from r obtain h3 where m: "?copy n h1 = (Inr (), h3)"
      and k: "vec_push_back t n h3 = (Inr u, h2)"
      by (rule then_do_Inr)
    from bc [OF f m] k show ?thesis by (auto dest!: vec_push_back_Inr)
  qed
  have fl: "\<not> fault_free h1" if f: "fresh n h h1" and r: "?fill n h1 = (Inl e, h2)" for n h1 e h2
    using r
  proof (rule then_do_fails [where b = n])
    show "cells h1 n \<noteq> None" using fresh_elems_new [OF f] by simp
  next
    fix r1 h3
    assume "?copy n h1 = (r1, h3)"
    then show "touches n h1 h3" by (rule tc)
  next
    fix h3
    assume "?copy n h1 = (Inl e, h3)"
    with f show "\<not> fault_free h1" by (rule fc)
  next
    fix h3
    assume "?copy n h1 = (Inr (), h3)"
    with f have "cells h3 n \<noteq> None \<and> vec_elems n h3 = contents c h" by (rule bc)
    then show "cells h3 n \<noteq> None" by simp
  next
    fix h3 h4
    assume "cells h3 n \<noteq> None" and "vec_push_back t n h3 = (Inl e, h4)"
    then show "\<not> fault_free h3" by (auto dest: vec_push_back_Inl)
  qed
  have "(\<exists>e. r = Inl e \<and> \<not> fault_free h \<and> kept c h c' h') \<or>
        (r = Inr () \<and> swapped (contents c h @ [t]) c h c' h')"
    using ok w
  proof (rule fill_then_swap_effect [where fill = ?fill])
    fix n h1 r1 h2
    assume "?fill n h1 = (r1, h2)"
    then show "touches n h1 h2" by (rule t)
  next
    fix n h1 u h2
    assume "fresh n h h1" and "?fill n h1 = (Inr u, h2)"
    then show "cells h2 n \<noteq> None \<and> vec_elems n h2 = contents c h @ [t]" by (rule b)
  next
    fix n h1 e h2
    assume "fresh n h h1" and "?fill n h1 = (Inl e, h2)"
    then show "\<not> fault_free h1" by (rule fl)
  qed
  then show ?thesis by (auto simp: wrote_def)
qed

lemma emplace_back_push_back: "emplace_back t c h = push_back t c h"
  by (simp add: emplace_back_def push_back_def)

lemma push_front_effect:
  assumes ok: "vector_ok c h" and run: "push_front t c h = (r, c', h')"
  shows "(\<exists>e. r = Inl e \<and> \<not> fault_free h \<and> kept c h c' h') \<or>
         (r = Inr () \<and> wrote (t # contents c h) c h c' h')"
proof (cases "sp_use_count (storage c) h = 1")
  case True
  from use_count_one [OF True] obtain a where a: "storage c = Some a" and one: "use_count h a = 1"
    by blast
  from ok a have live: "cells h a \<noteq> None" by (simp add: vector_ok_def)
  from run True a have pb: "vec_insert 0 [t] a h = (r, h')" and c': "c' = c"
    by (auto simp: push_front_def split: prod.splits)
  show ?thesis
  proof (cases r)
    case (Inl e)
    with pb live have "same_store h h'" and "\<not> fault_free h"
      by (auto dest: vec_insert_Inl)
    with Inl c' show ?thesis by (auto intro: same_store_kept)
  next
    case (Inr u)
    with pb have "cells h' a \<noteq> None" and e: "vec_elems a h' = t # vec_elems a h"
      by (auto dest!: vec_insert_Inr)
    from in_place_write [OF a one vec_insert_touches [OF pb] this(1)] e a c' Inr
    show ?thesis by (simp add: wrote_def contents_def)
  qed
next
  case False
  let ?fill = "\<lambda>n. case storage c of
                   None \<Rightarrow> then_do (vec_reserve 4 n) (vec_push_back t n)
                 | Some a \<Rightarrow>
                     (\<lambda>h1. then_do (vec_reserve (length (vec_elems a h1) + 1 + 4) n)
                             (then_do (vec_push_back t n) (vec_append (vec_elems a h1) n)) h1)"
  from run False have w: "with_new_storage (\<lambda>n. fill_then_swap (?fill n) n c) c h = (r, c', h')"
    by (simp add: push_front_def)
  have t: "touches n h1 h2" if "?fill n h1 = (r1, h2)" for n h1 r1 h2
    using that
    by (auto split: option.splits
        elim!: then_do_touches vec_reserve_touches vec_append_touches vec_push_back_touches)
  have b: "cells h2 n \<noteq> None \<and> vec_elems n h2 = t # contents c h"
    if f: "fresh n h h1" and m: "?fill n h1 = (Inr u, h2)" for n h1 u h2
  proof (cases "storage c")
    case None
    with m obtain h3 where "vec_reserve 4 n h1 = (Inr (), h3)"
      and "vec_push_back t n h3 = (Inr u, h2)"
      by (auto elim: then_do_Inr)
    with None fresh_elems_new [OF f] show ?thesis
      by (auto simp: contents_def dest!: vec_reserve_Inr vec_push_back_Inr)
  next
    case (Some a)
    with m obtain h3 h4 where "vec_reserve (length (vec_elems a h1) + 1 + 4) n h1 = (Inr (), h3)"
      and "vec_push_back t n h3 = (Inr (), h4)"
      and "vec_append (vec_elems a h1) n h4 = (Inr u, h2)"
      by (auto elim!: then_do_Inr)
    with fresh_elems_new [OF f] fresh_contents [OF f ok Some] Some show ?thesis
      by (auto simp: contents_def dest!: vec_reserve_Inr vec_append_Inr vec_push_back_Inr)
  qed
  have fl: "\<not> fault_free h1" if f: "fresh n h h1" and m: "?fill n h1 = (Inl e, h2)" for n h1 e h2
  proof (cases "storage c")
    case None
    with m have "then_do (vec_reserve 4 n) (vec_push_back t n) h1 = (Inl e, h2)" by simp
    then show ?thesis
    proof (rule then_do_fails [where b = n])
      show "cells h1 n \<noteq> None" using fresh_elems_new [OF f] by simp
    qed (auto dest: vec_reserve_touches vec_reserve_Inl vec_reserve_Inr vec_push_back_Inl)
  next
    case (Some a)
    with m have "then_do (vec_reserve (length (vec_elems a h1) + 1 + 4) n)
         (then_do (vec_push_back t n) (vec_append (vec_elems a h1) n)) h1 = (Inl e, h2)" by simp
    then show ?thesis
    proof (rule then_do_fails [where b = n])
      show "cells h1 n \<noteq> None" using fresh_elems_new [OF f] by simp
    next
      fix h3 h4
      assume c3: "cells h3 n \<noteq> None"
        and td: "then_do (vec_push_back t n) (vec_append (vec_elems a h1) n) h3 = (Inl e, h4)"
      from td c3 show "\<not> fault_free h3"
        by (rule then_do_fails [where b = n])
           (auto dest: vec_push_back_touches vec_push_back_Inl vec_push_back_Inr vec_append_Inl)
    qed (auto dest: vec_reserve_touches vec_reserve_Inl vec_reserve_Inr)
  qed
  have "(\<exists>e. r = Inl e \<and> \<not> fault_free h \<and> kept c h c' h') \<or>
        (r = Inr () \<and> swapped (t # contents c h) c h c' h')"
    using ok w
  proof (rule fill_then_swap_effect [where fill = ?fill])
    fix n h1 r1 h2
    assume "?fill n h1 = (r1, h2)"
    then show "touches n h1 h2" by (rule t)
  next
    fix n h1 u h2
    assume "fresh n h h1" and "?fill n h1 = (Inr u, h2)"
    then show "cells h2 n \<noteq> None \<and> vec_elems n h2 = t # contents c h" by (rule b)
  next
    fix n h1 e h2
    assume "fresh n h h1" and "?fill n h1 = (Inl e, h2)"
    then show "\<not> fault_free h1" by (rule fl)
  qed
  then show ?thesis by (auto simp: wrote_def)
qed

lemma clear_effect: "clear c h = (r, c', h') \<Longrightarrow> r = Inr () \<and> wrote [] c h c' h'"
  by (auto simp: clear_def wrote_def split: prod.splits dest: reset_swapped)


lemma filter_same_length: "length (filter P xs) = length xs \<Longrightarrow> filter P xs = xs"
  by (metis filter_True length_filter_less less_irrefl)

lemma remove_effect:
  assumes ok: "vector_ok c h" and run: "remove p c h = (r, c', h')"
  shows "(\<exists>e. r = Inl e \<and> (\<not> fault_free h \<or> \<not> pure_pred p) \<and>
              (kept c h c' h' \<or> (\<exists>ys. in_place ys c h c' h'))) \<or>
         (r = Inr (length (filter (matches p) (contents c h))) \<and>
          (kept c h c' h' \<and> filter (\<lambda>x. \<not> matches p x) (contents c h) = contents c h \<or>
           wrote (filter (\<lambda>x. \<not> matches p x) (contents c h)) c h c' h'))"
proof (cases "storage c")
  case None
  with run show ?thesis by (simp add: remove_def contents_def kept_refl)
next
  case (Some a)
  with ok obtain s where s: "cells h a = Some s" by (auto simp: vector_ok_def)
  from Some s have xs: "contents c h = elems s" by (simp add: contents_def vec_elems_def)
  show ?thesis
  proof (cases "elems s = []")
    case True
    with run Some s xs show ?thesis by (simp add: remove_def kept_refl)
  next
    case nonempty: False
    show ?thesis
    proof (cases "use_count h a = 1")
      case True
      obtain r0 ys where l: "remove_loop p 0 (elems s) 0 = (r0, ys)"
        by (cases "remove_loop p 0 (elems s) 0")
      with run Some s nonempty True have r: "r = r0" and c': "c' = c"
        and h': "h' = h\<lparr>cells := (cells h)(a \<mapsto> s\<lparr>elems := ys\<rparr>)\<rparr>"
        by (simp_all add: remove_def)
      from h' have "touches a h h'" and "cells h' a \<noteq> None" and "vec_elems a h' = ys"
        by (simp_all add: touches_def vec_elems_def)
      with in_place_write [OF Some True this(1,2)] c' have ip: "in_place ys c h c' h'" by simp
      show ?thesis
      proof (cases r0)
        case (Inl e)
        with l have "\<not> pure_pred p" by (auto dest: remove_loop_Inl)
        with Inl r ip show ?thesis by auto
      next
        case (Inr k)
        with l have "k = length (filter (matches p) (elems s))"
          and "ys = filter (\<lambda>x. \<not> matches p x) (elems s)"
          by (auto dest: remove_loop_Inr)
        with Inr r ip xs show ?thesis by (simp add: wrote_def)
      qed
    next
      case False
      let ?body = "\<lambda>n h1.
         case then_do (vec_reserve (length (elems s)) n) (copy_unless p (elems s) 0 n) h1 of
           (Inl e, h2) \<Rightarrow> (Inl e, c, h2)
         | (Inr count, h2) \<Rightarrow>
             if length (elems s) = length (vec_elems n h2) then (Inr count, c, h2)
             else if vec_elems n h2 = []
             then (case reset_storage c h2 of (c', h3) \<Rightarrow> (Inr count, c', h3))
             else (case assign_storage (Some n) c h2 of (c', h3) \<Rightarrow> (Inr count, c', h3))"
      from run Some s nonempty False have "with_new_storage ?body c h = (r, c', h')"
        by (simp add: remove_def)
      then show ?thesis
      proof (cases rule: with_new_storage_cases)
        case (no_memory e)
        then show ?thesis by (auto intro: same_store_kept)
      next
        case (ran n h1 h2)
        note new = fresh_elems_new [OF ran(1)]
        obtain r1 h3 where
          f: "then_do (vec_reserve (length (elems s)) n) (copy_unless p (elems s) 0 n) h1 = (r1, h3)"
          by (cases "then_do (vec_reserve (length (elems s)) n) (copy_unless p (elems s) 0 n) h1")
        then have t3: "touches n h1 h3"
          by (rule then_do_touches) (auto elim: vec_reserve_touches copy_unless_touches)
        show ?thesis
        proof (cases r1)
          case (Inl e)
          with f ran(2) have out: "r = Inl e" "c' = c" "h2 = h3" by simp_all
          from f Inl have "then_do (vec_reserve (length (elems s)) n)
              (copy_unless p (elems s) 0 n) h1 = (Inl e, h3)" by simp
          then have "\<not> fault_free h1 \<or> \<not> pure_pred p"
          proof (cases rule: then_do_Inl)
            case first
            with new show ?thesis by (auto dest: vec_reserve_Inl)
          next
            case (second h4)
            from second(1) have "cells h4 n \<noteq> None" by (auto dest!: vec_reserve_Inr)
            from copy_unless_Inl [OF second(2) this]
              touches_fault_free [OF vec_reserve_touches [OF second(1)]]
            show ?thesis by blast
          qed
          with fresh_fault_free [OF ran(1)] have "\<not> fault_free h \<or> \<not> pure_pred p" by blast
          with out discard_new [OF ran(1) t3] ran(3) show ?thesis by simp
        next
          case (Inr count)
          with f obtain h4 where rs: "vec_reserve (length (elems s)) n h1 = (Inr (), h4)"
            and cu: "copy_unless p (elems s) 0 n h4 = (Inr count, h3)"
            by (auto elim: then_do_Inr)
          from rs new have c4: "cells h4 n \<noteq> None" and e4: "vec_elems n h4 = []"
            by (auto dest!: vec_reserve_Inr)
          from copy_unless_Inr [OF cu c4] e4
          have count: "count = length (filter (matches p) (elems s))"
            and e3: "vec_elems n h3 = filter (\<lambda>x. \<not> matches p x) (elems s)"
            and c3: "cells h3 n \<noteq> None" by simp_all
          show ?thesis
          proof (cases "length (elems s) = length (vec_elems n h3)")
            case True
            with f Inr ran(2) have out: "r = Inr count" "c' = c" "h2 = h3" by simp_all
            from True e3 have "length (filter (\<lambda>x. \<not> matches p x) (elems s)) = length (elems s)"
              by simp
            then have "filter (\<lambda>x. \<not> matches p x) (elems s) = elems s"
              by (rule filter_same_length)
            with out count xs discard_new [OF ran(1) t3] ran(3) show ?thesis by simp
          next
            case changed: False
            show ?thesis
            proof (cases "vec_elems n h3 = []")
              case True
              with f Inr ran(2) changed nonempty have r: "r = Inr count"
                and rs: "reset_storage c h3 = (c', h2)"
                by (auto split: prod.splits)
              from reset_new [OF ran(1) t3 ok rs] True e3 r count xs ran(3) show ?thesis
                by (simp add: wrote_def)
            next
              case False
              with f Inr ran(2) changed have r: "r = Inr count"
                and as: "assign_storage (Some n) c h3 = (c', h2)"
                by (auto split: prod.splits)
              from swap_new [OF ran(1) t3 c3 ok as] e3 r count xs ran(3) show ?thesis
                by (simp add: wrote_def)
            qed
          qed
        qed
      qed
    qed
  qed
qed


text \<open>The two conditional insertions of \<^verbatim>\<open>removeAt\<close>.\<close>

lemma opt_append_touches:
  "(if b then vec_append ys n else (\<lambda>h2. (Inr (), h2))) h = (r, h') \<Longrightarrow> touches n h h'"
  by (auto simp: touches_refl split: if_splits dest: vec_append_touches)

lemma opt_append_Inr:
  "(if b then vec_append ys n else (\<lambda>h2. (Inr (), h2))) h = (Inr u, h') \<Longrightarrow>
     cells h n \<noteq> None \<Longrightarrow> \<not> b \<longrightarrow> ys = [] \<Longrightarrow>
     cells h' n \<noteq> None \<and> vec_elems n h' = vec_elems n h @ ys"
  by (auto split: if_splits dest!: vec_append_Inr)

lemma opt_append_Inl:
  "(if b then vec_append ys n else (\<lambda>h2. (Inr (), h2))) h = (Inl e, h') \<Longrightarrow>
     cells h n \<noteq> None \<Longrightarrow> \<not> fault_free h"
  by (auto split: if_splits dest!: vec_append_Inl)

lemma removeAt_effect:
  assumes ok: "vector_ok c h" and a: "storage c = Some a" and i: "i \<le> length (contents c h)"
    and run: "removeAt i c h = (r, c', h')"
  shows "(\<exists>e. r = Inl e \<and> \<not> fault_free h \<and> kept c h c' h') \<or>
         (r = Inr False \<and> i = length (contents c h) \<and> kept c h c' h') \<or>
         (r = Inr True \<and> i < length (contents c h) \<and>
          wrote (take i (contents c h) @ drop (Suc i) (contents c h)) c h c' h')"
proof -
  from ok a obtain s where s: "cells h a = Some s" by (auto simp: vector_ok_def)
  from a s have xs: "contents c h = elems s" by (simp add: contents_def vec_elems_def)
  show ?thesis
  proof (cases "i = length (elems s)")
    case True
    with run a s xs show ?thesis by (simp add: removeAt_def kept_refl)
  next
    case False
    with i xs have less: "i < length (elems s)" by simp
    show ?thesis
    proof (cases "length (elems s) = 1")
      case True
      with run a s False have r: "r = Inr True" and rs: "reset_storage c h = (c', h')"
        by (auto simp: removeAt_def split: prod.splits)
      from True less have "take i (elems s) @ drop (Suc i) (elems s) = []" by simp
      with reset_swapped [OF rs] have "wrote (take i (elems s) @ drop (Suc i) (elems s)) c h c' h'"
        by (simp only: wrote_def simp_thms)
      with r less xs show ?thesis by simp
    next
      case several: False
      show ?thesis
      proof (cases "use_count h a = 1")
        case True
        from s have "cells h a \<noteq> None" by simp
        from vec_erase_Some [OF this, of i] obtain h1 where
          er: "vec_erase i a h = (Inr (), h1)" and c1: "cells h1 a \<noteq> None"
          and e1: "vec_elems a h1 = take i (vec_elems a h) @ drop (Suc i) (vec_elems a h)"
          by blast
        from run a s False several True er have r: "r = Inr True" and c': "c' = c" and h': "h' = h1"
          by (simp_all add: removeAt_def)
        from in_place_write [OF a True vec_erase_touches [OF er] c1] e1 r c' h' less xs s
        show ?thesis by (simp add: wrote_def vec_elems_def)
      next
        case shared: False
        let ?fill = "\<lambda>n. then_do (vec_reserve (length (elems s)) n)
                         (then_do
                            (if i \<noteq> 0 then vec_append (take i (elems s)) n
                             else (\<lambda>h2. (Inr (), h2)))
                            (if Suc i \<noteq> length (elems s)
                             then vec_append (drop (Suc i) (elems s)) n
                             else (\<lambda>h2. (Inr (), h2))))"
        let ?body = "\<lambda>n h1. case ?fill n h1 of
                           (Inl e, h2) \<Rightarrow> (Inl e, c, h2)
                         | (Inr u, h2) \<Rightarrow>
                             (case assign_storage (Some n) c h2 of
                                (c', h3) \<Rightarrow> (Inr True, c', h3))"
        from run a s False several shared have "with_new_storage ?body c h = (r, c', h')"
          by (simp add: removeAt_def)
        then show ?thesis
        proof (cases rule: with_new_storage_cases)
          case (no_memory e)
          then show ?thesis by (auto intro: same_store_kept)
        next
          case (ran n h1 h2)
          note new = fresh_elems_new [OF ran(1)]
          obtain r1 h3 where f: "?fill n h1 = (r1, h3)" by (cases "?fill n h1")
          then have t3: "touches n h1 h3"
            by (rule then_do_touches)
               (auto elim!: vec_reserve_touches then_do_touches opt_append_touches)
          show ?thesis
          proof (cases r1)
            case (Inl e)
            with f ran(2) have out: "r = Inl e" "c' = c" "h2 = h3" by simp_all
            from f Inl have "?fill n h1 = (Inl e, h3)" by simp
            then have "\<not> fault_free h1"
            proof (rule then_do_fails [where b = n])
              show "cells h1 n \<noteq> None" using new by simp
            next
              fix h4 h5
              assume c4: "cells h4 n \<noteq> None"
                and td: "then_do
                            (if i \<noteq> 0 then vec_append (take i (elems s)) n
                             else (\<lambda>h2. (Inr (), h2)))
                            (if Suc i \<noteq> length (elems s)
                             then vec_append (drop (Suc i) (elems s)) n
                             else (\<lambda>h2. (Inr (), h2))) h4 = (Inl e, h5)"
              from td c4 show "\<not> fault_free h4"
              proof (rule then_do_fails [where b = n])
                fix r6 h6
                assume "(if i \<noteq> 0 then vec_append (take i (elems s)) n
                        else (\<lambda>h2. (Inr (), h2))) h4 = (r6, h6)"
                then show "touches n h4 h6" by (rule opt_append_touches)
              next
                fix h6
                assume "cells h4 n \<noteq> None"
                  and "(if i \<noteq> 0 then vec_append (take i (elems s)) n
                        else (\<lambda>h2. (Inr (), h2))) h4 = (Inl e, h6)"
                then show "\<not> fault_free h4" by (rule opt_append_Inl [rotated])
              next
                fix h6
                assume "cells h4 n \<noteq> None"
                  and "(if i \<noteq> 0 then vec_append (take i (elems s)) n
                        else (\<lambda>h2. (Inr (), h2))) h4 = (Inr (), h6)"
                then show "cells h6 n \<noteq> None" by (auto split: if_splits dest!: vec_append_Inr)
              next
                fix h6 h7
                assume "cells h6 n \<noteq> None"
                  and "(if Suc i \<noteq> length (elems s)
                        then vec_append (drop (Suc i) (elems s)) n
                        else (\<lambda>h2. (Inr (), h2))) h6 = (Inl e, h7)"
                then show "\<not> fault_free h6" by (rule opt_append_Inl [rotated])
              qed
            qed (auto dest: vec_reserve_touches vec_reserve_Inl vec_reserve_Inr)
            with fresh_fault_free [OF ran(1)] have "\<not> fault_free h" by blast
            with out discard_new [OF ran(1) t3] ran(3) show ?thesis by simp
          next
            case (Inr u)
            with f ran(2) have r: "r = Inr True" and as: "assign_storage (Some n) c h3 = (c', h2)"
              by (auto split: prod.splits)
            from f Inr obtain h4 h5 where
              rs: "vec_reserve (length (elems s)) n h1 = (Inr (), h4)"
              and p1: "(if i \<noteq> 0 then vec_append (take i (elems s)) n
                        else (\<lambda>h2. (Inr (), h2))) h4 = (Inr (), h5)"
              and p2: "(if Suc i \<noteq> length (elems s)
                        then vec_append (drop (Suc i) (elems s)) n
                        else (\<lambda>h2. (Inr (), h2))) h5 = (Inr u, h3)"
              by (auto elim!: then_do_Inr)
            from rs new have c4: "cells h4 n \<noteq> None" and e4: "vec_elems n h4 = []"
              by (auto dest!: vec_reserve_Inr)
            from opt_append_Inr [OF p1 c4] e4
            have c5: "cells h5 n \<noteq> None" and e5: "vec_elems n h5 = take i (elems s)" by simp_all
            from opt_append_Inr [OF p2 c5] e5
            have c3: "cells h3 n \<noteq> None"
              and e3: "vec_elems n h3 = take i (elems s) @ drop (Suc i) (elems s)" by simp_all
            from swap_new [OF ran(1) t3 c3 ok as] e3 r less xs ran(3) show ?thesis
              by (simp add: wrote_def)
          qed
        qed
      qed
    qed
  qed
qed


lemma removeFirst_effect:
  assumes ok: "vector_ok c h" and run: "removeFirst p c h = (r, c', h')"
  shows "(\<exists>e. r = Inl e \<and> (\<not> fault_free h \<or> \<not> pure_pred p) \<and> kept c h c' h') \<or>
         (r = Inr (\<exists>x \<in> set (contents c h). matches p x) \<and>
          (kept c h c' h' \<and> ref_remove_first (matches p) (contents c h) = contents c h \<or>
           wrote (ref_remove_first (matches p) (contents c h)) c h c' h'))"
proof (cases "storage c")
  case None
  with run show ?thesis by (simp add: removeFirst_def contents_def kept_refl)
next
  case (Some a)
  with ok obtain s where s: "cells h a = Some s" by (auto simp: vector_ok_def)
  from Some s have xs: "contents c h = elems s" by (simp add: contents_def vec_elems_def)
  show ?thesis
  proof (cases "elems s = []")
    case True
    with run Some s xs show ?thesis by (simp add: removeFirst_def kept_refl)
  next
    case False
    show ?thesis
    proof (cases "find_if p (elems s)")
      case (Inl e)
      with run Some s False have "r = Inl e" "c' = c" "h' = h" by (simp_all add: removeFirst_def)
      with find_if_Inl [OF Inl] show ?thesis by (simp add: kept_refl)
    next
      case (Inr i)
      with run Some s False have ra: "removeAt i c h = (r, c', h')" by (simp add: removeFirst_def)
      from find_if_Inr [OF Inr] xs have i: "i \<le> length (contents c h)"
        and found: "i < length (contents c h) \<longleftrightarrow> (\<exists>x \<in> set (contents c h). matches p x)"
        and ref: "ref_remove_first (matches p) (contents c h)
                    = take i (contents c h) @ drop (Suc i) (contents c h)"
        by simp_all
      from removeAt_effect [OF ok Some i ra] found ref i show ?thesis by auto
    qed
  qed
qed

lemma removeLast_effect:
  assumes ok: "vector_ok c h" and run: "removeLast p c h = (r, c', h')"
  shows "(\<exists>e. r = Inl e \<and> (\<not> fault_free h \<or> \<not> pure_pred p) \<and> kept c h c' h') \<or>
         (r = Inr (\<exists>x \<in> set (contents c h). matches p x) \<and>
          (kept c h c' h' \<and> ref_remove_last (matches p) (contents c h) = contents c h \<or>
           wrote (ref_remove_last (matches p) (contents c h)) c h c' h'))"
proof (cases "storage c")
  case None
  with run show ?thesis
    by (simp add: removeLast_def contents_def kept_refl ref_remove_last_def)
next
  case (Some a)
  with ok obtain s where s: "cells h a = Some s" by (auto simp: vector_ok_def)
  from Some s have xs: "contents c h = elems s" by (simp add: contents_def vec_elems_def)
  show ?thesis
  proof (cases "elems s = []")
    case True
    with run Some s xs show ?thesis by (simp add: removeLast_def kept_refl ref_remove_last_def)
  next
    case False
    show ?thesis
    proof (cases "find_if p (rev (elems s))")
      case (Inl e)
      with run Some s False have "r = Inl e" "c' = c" "h' = h" by (simp_all add: removeLast_def)
      with find_if_Inl [OF Inl] show ?thesis by (simp add: kept_refl)
    next
      case (Inr j)
      from find_if_Inr [OF Inr]
      have found: "j < length (elems s) \<longleftrightarrow> (\<exists>x \<in> set (elems s). matches p x)"
        and j: "j \<le> length (elems s)"
        and ref: "ref_remove_first (matches p) (rev (elems s))
                    = take j (rev (elems s)) @ drop (Suc j) (rev (elems s))"
        by simp_all
      show ?thesis
      proof (cases "j = length (elems s)")
        case True
        with run Some s False Inr have out: "r = Inr False" "c' = c" "h' = h"
          by (simp_all add: removeLast_def)
        from True found have none: "\<not> (\<exists>x \<in> set (rev (elems s)). matches p x)" by simp
        from ref_remove_first_none [OF none] have "ref_remove_last (matches p) (elems s) = elems s"
          by (simp add: ref_remove_last_def)
        with out none xs show ?thesis by (simp add: kept_refl)
      next
        case neq: False
        with j have less: "j < length (elems s)" by simp
        let ?i = "length (elems s) - 1 - j"
        from run Some s False Inr neq have ra: "removeAt ?i c h = (r, c', h')"
          by (simp add: removeLast_def)
        from less xs have i: "?i \<le> length (contents c h)" and i': "?i < length (contents c h)"
          by simp_all
        from ref rev_remove_at [OF less]
        have "ref_remove_last (matches p) (elems s)
                = take ?i (elems s) @ drop (Suc ?i) (elems s)"
          by (simp add: ref_remove_last_def)
        with removeAt_effect [OF ok Some i ra] found less xs i' show ?thesis by auto
      qed
    qed
  qed
qed

lemma returning_Inl: "returning f x = (Inl e, c', h') \<longleftrightarrow> x = (Inl e, c', h')"
  by (auto simp: returning_def split: prod.splits sum.splits)

lemma returning_Inr: "returning f x = (Inr u, c', h') \<longleftrightarrow> (\<exists>v. x = (Inr v, c', h') \<and> u = f v)"
  by (auto simp: returning_def split: prod.splits sum.splits)

text \<open>
  Every operation either throws, which needs a fault in stock or a predicate that throws,
  and leaves the container alone (or, in the erasing loop, with its storage partly
  erased in place); or returns, and the container then has the elements of the reference.
\<close>

lemma apply_op_effect:
  assumes ok: "vector_ok c h" and run: "apply_op x c h = (r, c', h')"
  shows "(\<exists>e. r = Inl e \<and> (\<not> fault_free h \<or> \<not> pure_op x) \<and>
              (kept c h c' h' \<or> (\<exists>ys. in_place ys c h c' h'))) \<or>
         ((\<exists>u. r = Inr u) \<and>
          (kept c h c' h' \<and> ref_op x (contents c h) = contents c h \<or>
           wrote (ref_op x (contents c h)) c h c' h'))"
proof (cases r)
  case (Inl e)
  show ?thesis
  proof (cases x)
    case (PushFront t)
    with run Inl push_front_effect [OF ok, of t "Inl e" c' h'] show ?thesis
      by (auto simp: returning_Inl)
  next
    case (PushBack t)
    with run Inl push_back_effect [OF ok, of t "Inl e" c' h'] show ?thesis
      by (auto simp: returning_Inl)
  next
    case (EmplaceBack t)
    with run Inl push_back_effect [OF ok, of t "Inl e" c' h'] show ?thesis
      by (auto simp: returning_Inl emplace_back_push_back)
  next
    case (Remove p)
    with run Inl remove_effect [OF ok, of p "Inl e" c' h'] show ?thesis
      by (auto simp: returning_Inl)
  next
    case (RemoveFirst p)
    with run Inl removeFirst_effect [OF ok, of p "Inl e" c' h'] show ?thesis
      by (auto simp: returning_Inl)
  next
    case (RemoveLast p)
    with run Inl removeLast_effect [OF ok, of p "Inl e" c' h'] show ?thesis
      by (auto simp: returning_Inl)
  next
    case Clear
    with run Inl clear_effect [of c h "Inl e" c' h'] show ?thesis
      by (auto simp: returning_Inl)
  qed
next
  case (Inr u)
  show ?thesis
  proof (cases x)
    case (PushFront t)
    with run Inr obtain v where "push_front t c h = (Inr v, c', h')"
      by (auto simp: returning_Inr)
    from push_front_effect [OF ok this] PushFront Inr show ?thesis by auto
  next
    case (PushBack t)
    with run Inr obtain v where "push_back t c h = (Inr v, c', h')"
      by (auto simp: returning_Inr)
    from push_back_effect [OF ok this] PushBack Inr show ?thesis by auto
  next
    case (EmplaceBack t)
    with run Inr obtain v where "push_back t c h = (Inr v, c', h')"
      by (auto simp: returning_Inr emplace_back_push_back)
    from push_back_effect [OF ok this] EmplaceBack Inr show ?thesis by auto
  next
    case (Remove p)
    with run Inr obtain v where "remove p c h = (Inr v, c', h')"
      by (auto simp: returning_Inr)
    from remove_effect [OF ok this] Remove Inr show ?thesis by auto
  next
    case (RemoveFirst p)
    with run Inr obtain v where "removeFirst p c h = (Inr v, c', h')"
      by (auto simp: returning_Inr)
    from removeFirst_effect [OF ok this] RemoveFirst Inr show ?thesis by auto
  next
    case (RemoveLast p)
    with run Inr obtain v where "removeLast p c h = (Inr v, c', h')"
      by (auto simp: returning_Inr)
    from removeLast_effect [OF ok this] RemoveLast Inr show ?thesis by auto
  next
    case Clear
    with run Inr obtain v where "clear c h = (Inr v, c', h')"
      by (auto simp: returning_Inr)
    from clear_effect [OF this] Clear Inr show ?thesis by auto
  qed
qed

subsection \<open>What the three effects preserve\<close>

lemma effect_vector_ok:
  assumes "effect c h c' h'" and ok: "vector_ok c h"
  shows "vector_ok c' h'"
proof -
  from assms(1) consider (kept) "kept c h c' h'" | (in_place) ys where "in_place ys c h c' h'"
    | (swapped) ys where "swapped ys c h c' h'"
    by (auto simp: effect_def)
  then show ?thesis
  proof cases
    case kept
    with ok show ?thesis
      by (auto simp: kept_def rest_same_def vector_ok_def heap_ok_def split: option.splits)
  next
    case in_place
    with ok show ?thesis
      by (auto simp: in_place_def rest_same_def vector_ok_def heap_ok_def split: option.splits)
  next
    case swapped
    with ok have heap: "heap_ok h'"
      by (auto simp: swapped_def rest_same_def vector_ok_def heap_ok_def split: option.splits)
    from ok have "empty_storage < next_addr h" by (simp add: vector_ok_def heap_ok_def)
    with swapped heap show ?thesis
      by (auto simp: swapped_def vector_ok_def split: option.splits)
  qed
qed

lemma effect_frame:
  assumes "effect c h c' h'" and held: "held_elsewhere a c h"
  shows "held_elsewhere a c' h' \<and> cells h' a = cells h a"
proof -
  from assms(1) consider (kept) "kept c h c' h'" | (in_place) ys where "in_place ys c h c' h'"
    | (swapped) ys where "swapped ys c h c' h'"
    by (auto simp: effect_def)
  then show ?thesis
  proof cases
    case kept
    with held show ?thesis by (auto simp: kept_def rest_same_def held_elsewhere_def)
  next
    case in_place
    with held show ?thesis by (auto simp: in_place_def rest_same_def held_elsewhere_def)
  next
    case swapped
    then have rest: "rest_same (set_option (storage c)) h h'" and rel: "released (storage c) h h'"
      and new: "\<forall>n. storage c' = Some n \<longrightarrow> next_addr h \<le> n"
      by (auto simp: swapped_def split: option.splits)
    from held new have other: "storage c' \<noteq> Some a" by (auto simp: held_elsewhere_def)
    show ?thesis
    proof (cases "storage c = Some a")
      case True
      with held rel rest other show ?thesis
        by (auto simp: held_elsewhere_def released_def rest_same_def)
    next
      case False
      with held rest other show ?thesis
        by (auto simp: held_elsewhere_def rest_same_def)
    qed
  qed
qed

lemma effect_fault_free: "effect c h c' h' \<Longrightarrow> fault_free h \<Longrightarrow> fault_free h'"
  by (auto simp: effect_def kept_def in_place_def swapped_def rest_same_def fault_free_def)

lemma kept_contents: "kept c h c' h' \<Longrightarrow> vector_ok c h \<Longrightarrow> contents c' h' = contents c h"
  by (auto simp: kept_def rest_same_def vector_ok_def contents_def vec_elems_def split: option.splits)

lemma wrote_contents: "wrote xs c h c' h' \<Longrightarrow> contents c' h' = xs"
  by (auto simp: wrote_def in_place_def swapped_def contents_def split: option.splits)

lemma kept_sole_holder: "kept c h c' h' \<Longrightarrow> vector_ok c h \<Longrightarrow> sole_holder c h \<Longrightarrow> sole_holder c' h'"
  by (auto simp: kept_def rest_same_def vector_ok_def sole_holder_def split: option.splits)

lemma wrote_sole_holder: "wrote xs c h c' h' \<Longrightarrow> sole_holder c' h'"
  by (auto simp: wrote_def in_place_def swapped_def sole_holder_def split: option.splits)

lemma in_place_sole_holder: "in_place xs c h c' h' \<Longrightarrow> sole_holder c' h'"
  by (auto simp: in_place_def sole_holder_def)

subsection \<open>One operation, and a run of operations\<close>

lemma apply_op_is_effect:
  assumes "vector_ok c h" and "apply_op x c h = (r, c', h')"
  shows "effect c h c' h'"
  using apply_op_effect [OF assms] by (auto simp: effect_def wrote_def)

lemma apply_op_returns:
  assumes "vector_ok c h" and "apply_op x c h = (r, c', h')" and "fault_free h" and "pure_op x"
  shows "\<exists>u. r = Inr u"
  using apply_op_effect [OF assms(1,2)] assms(3,4) by auto

lemma apply_op_contents:
  assumes "vector_ok c h" and "apply_op x c h = (Inr u, c', h')"
  shows "contents c' h' = ref_op x (contents c h)"
  using apply_op_effect [OF assms] assms(1) by (auto dest: kept_contents wrote_contents)

lemma apply_op_sole_holder:
  assumes "vector_ok c h" and "apply_op x c h = (r, c', h')" and "sole_holder c h"
  shows "sole_holder c' h'"
  using apply_op_effect [OF assms(1,2)] assms(1,3)
  by (auto dest: kept_sole_holder wrote_sole_holder in_place_sole_holder)

lemma run_vector_ok: "run ops c h = (rs, c', h') \<Longrightarrow> vector_ok c h \<Longrightarrow> vector_ok c' h'"
proof (induction ops arbitrary: c h rs)
  case Nil
  then show ?case by simp
next
  case (Cons x ops)
  obtain r c1 h1 where s: "apply_op x c h = (r, c1, h1)" by (cases "apply_op x c h")
  with Cons.prems(1) obtain rs' where "run ops c1 h1 = (rs', c', h')"
    by (auto split: prod.splits)
  moreover from effect_vector_ok [OF apply_op_is_effect [OF Cons.prems(2) s] Cons.prems(2)]
  have "vector_ok c1 h1" .
  ultimately show ?case by (rule Cons.IH)
qed

lemma run_frame:
  "run ops c h = (rs, c', h') \<Longrightarrow> vector_ok c h \<Longrightarrow> held_elsewhere a c h \<Longrightarrow>
     held_elsewhere a c' h' \<and> cells h' a = cells h a"
proof (induction ops arbitrary: c h rs)
  case Nil
  then show ?case by simp
next
  case (Cons x ops)
  obtain r c1 h1 where s: "apply_op x c h = (r, c1, h1)" by (cases "apply_op x c h")
  with Cons.prems(1) obtain rs' where rest: "run ops c1 h1 = (rs', c', h')"
    by (auto split: prod.splits)
  note e = apply_op_is_effect [OF Cons.prems(2) s]
  from effect_frame [OF e Cons.prems(3)]
  have held1: "held_elsewhere a c1 h1" and same1: "cells h1 a = cells h a" by simp_all
  from Cons.IH [OF rest effect_vector_ok [OF e Cons.prems(2)] held1] same1 show ?case by simp
qed

lemma run_contents:
  "run ops c h = (rs, c', h') \<Longrightarrow> vector_ok c h \<Longrightarrow> \<forall>r \<in> set rs. succeeded r \<Longrightarrow>
     contents c' h' = ref_run ops (contents c h)"
proof (induction ops arbitrary: c h rs)
  case Nil
  then show ?case by simp
next
  case (Cons x ops)
  obtain r c1 h1 where s: "apply_op x c h = (r, c1, h1)" by (cases "apply_op x c h")
  with Cons.prems(1) obtain rs' where rest: "run ops c1 h1 = (rs', c', h')" and rs: "rs = r # rs'"
    by (auto split: prod.splits)
  from rs Cons.prems(3) obtain u where u: "r = Inr u" and all: "\<forall>r \<in> set rs'. succeeded r"
    by (cases r) (auto simp: succeeded_def)
  note e = apply_op_is_effect [OF Cons.prems(2) s]
  from s u have "apply_op x c h = (Inr u, c1, h1)" by simp
  from apply_op_contents [OF Cons.prems(2) this]
    Cons.IH [OF rest effect_vector_ok [OF e Cons.prems(2)] all]
  show ?case by simp
qed

lemma run_returns:
  "run ops c h = (rs, c', h') \<Longrightarrow> vector_ok c h \<Longrightarrow> fault_free h \<Longrightarrow> \<forall>x \<in> set ops. pure_op x \<Longrightarrow>
     \<forall>r \<in> set rs. succeeded r"
proof (induction ops arbitrary: c h rs)
  case Nil
  then show ?case by simp
next
  case (Cons x ops)
  obtain r c1 h1 where s: "apply_op x c h = (r, c1, h1)" by (cases "apply_op x c h")
  with Cons.prems(1) obtain rs' where rest: "run ops c1 h1 = (rs', c', h')" and rs: "rs = r # rs'"
    by (auto split: prod.splits)
  note e = apply_op_is_effect [OF Cons.prems(2) s]
  from Cons.prems(4) have px: "pure_op x" and pxs: "\<forall>x \<in> set ops. pure_op x" by simp_all
  from apply_op_returns [OF Cons.prems(2) s Cons.prems(3) px] have "succeeded r" by (auto simp: succeeded_def)
  with Cons.IH [OF rest effect_vector_ok [OF e Cons.prems(2)]
      effect_fault_free [OF e Cons.prems(3)] pxs] rs
  show ?case by simp
qed

lemma run_sole_holder:
  "run ops c h = (rs, c', h') \<Longrightarrow> vector_ok c h \<Longrightarrow> sole_holder c h \<Longrightarrow> sole_holder c' h'"
proof (induction ops arbitrary: c h rs)
  case Nil
  then show ?case by simp
next
  case (Cons x ops)
  obtain r c1 h1 where s: "apply_op x c h = (r, c1, h1)" by (cases "apply_op x c h")
  with Cons.prems(1) obtain rs' where rest: "run ops c1 h1 = (rs', c', h')"
    by (auto split: prod.splits)
  note e = apply_op_is_effect [OF Cons.prems(2) s]
  from Cons.IH [OF rest effect_vector_ok [OF e Cons.prems(2)]
      apply_op_sole_holder [OF Cons.prems(2) s Cons.prems(3)]]
  show ?case .
qed

lemma vector_new_ok: "vector_ok vector_new (heap_init fs)"
  by (simp add: vector_ok_def heap_ok_def vector_new_def heap_init_def empty_storage_def)

subsection \<open>Capturing a snapshot\<close>

lemma read_only_copy_held:
  assumes ok: "vector_ok c h" and v: "read_only_copy c h = (v, h1)"
  shows "\<exists>a s. rv_storage v = Some a \<and> held_elsewhere a c h1 \<and> vector_ok c h1 \<and>
           cells h1 a = Some s \<and> elems s = contents c h"
proof (cases "storage c")
  case None
  with ok v show ?thesis
    by (auto simp: read_only_copy_def rv_new_def sp_acquire_def held_elsewhere_def vector_ok_def
        heap_ok_def contents_def Let_def split: option.splits)
next
  case (Some a)
  with ok v show ?thesis
    by (auto simp: read_only_copy_def rv_new_def sp_acquire_def held_elsewhere_def vector_ok_def
        heap_ok_def contents_def vec_elems_def Let_def split: option.splits)
qed

lemma begin_it_held:
  assumes ok: "vector_ok c h" and b: "begin_it c h = (i, h1)" and a: "it_storage i = Some a"
  shows "held_elsewhere a c h1 \<and> vector_ok c h1 \<and> fst (it_it i) = Some a"
  using assms
  by (auto simp: begin_it_def sp_acquire_def held_elsewhere_def vector_ok_def
      heap_ok_def iterator_default_def split: option.splits)

lemma begin_it_sentinel:
  "begin_it c h = (i, h1) \<Longrightarrow> it_storage i = None \<Longrightarrow> fst (it_it i) = None"
  by (auto simp: begin_it_def iterator_default_def cursor_null_def split: option.splits)

lemma it_pre_inc_funpow:
  "it_storage ((it_pre_inc ^^ k) i) = it_storage i \<and> fst (it_it ((it_pre_inc ^^ k) i)) = fst (it_it i)"
  by (induction k) (simp_all add: it_pre_inc_def cursor_move_def)

subsection \<open>Which outcomes an operation draws\<close>

lemma draws_refl: "draws h h ok"
  by (simp add: draws_def)

lemma draws_trans: "draws h h1 a \<Longrightarrow> draws h1 h2 b \<Longrightarrow> draws h h2 (a \<and> b)"
  by (auto simp: draws_def)

lemma draws_weaken: "draws h h' a \<Longrightarrow> (b \<longrightarrow> a) \<Longrightarrow> draws h h' b"
  by (auto simp: draws_def)

lemma draws_same_faults: "draws h h1 ok \<Longrightarrow> faults h2 = faults h1 \<Longrightarrow> draws h h2 ok"
  by (simp add: draws_def)

lemma draws_consumed:
  "draws h h' ok \<Longrightarrow> faults h = consumed h h' @ faults h' \<and> (ok \<longrightarrow> False \<notin> set (consumed h h'))"
  by (auto simp: draws_def consumed_def)

lemma sp_release_faults: "faults (sp_release p h) = faults h"
  by (simp add: sp_release_def split: option.splits)

lemma sp_acquire_faults: "faults (sp_acquire p h) = faults h"
  by (simp add: sp_acquire_def split: option.splits)

lemma step_ok_draws: "step_ok h = (b, h') \<Longrightarrow> draws h h' b"
  by (auto simp: step_ok_def draws_def split: list.splits)

lemma construct_n_draws: "construct_n n h = (b, h') \<Longrightarrow> draws h h' b"
proof (induction n arbitrary: h)
  case 0
  then show ?case by (simp add: draws_refl)
next
  case (Suc n)
  obtain b1 h1 where s: "step_ok h = (b1, h1)" by (cases "step_ok h")
  show ?case
  proof (cases b1)
    case True
    with Suc.prems s have "construct_n n h1 = (b, h')" by simp
    from draws_trans [OF step_ok_draws [OF s] Suc.IH [OF this]] True show ?thesis by simp
  next
    case False
    with Suc.prems s have "h' = h1" "b = False" by simp_all
    with step_ok_draws [OF s] show ?thesis by (auto elim: draws_weaken)
  qed
qed

lemma succeeded_simps [simp]: "succeeded (Inr u)" "\<not> succeeded (Inl e)"
  by (simp_all add: succeeded_def)

lemma new_storage_draws: "new_storage h = (r, h') \<Longrightarrow> draws h h' (succeeded r)"
proof -
  assume n: "new_storage h = (r, h')"
  obtain b1 h1 where s1: "step_ok h = (b1, h1)" by (cases "step_ok h")
  obtain b2 h2 where s2: "step_ok h1 = (b2, h2)" by (cases "step_ok h1")
  note d = draws_trans [OF step_ok_draws [OF s1] step_ok_draws [OF s2]]
  show ?thesis
  proof (cases b1)
    case False
    with n s1 have "h' = h1" "\<not> succeeded r" by (auto simp: new_storage_def)
    with step_ok_draws [OF s1] show ?thesis by (auto elim: draws_weaken)
  next
    case True
    with n s1 s2 have "faults h' = faults h2" and "succeeded r \<longrightarrow> b1 \<and> b2"
      by (auto simp: new_storage_def split: bool.splits)
    with d show ?thesis by (auto elim: draws_weaken dest: draws_same_faults)
  qed
qed

lemma vec_reserve_draws: "vec_reserve n a h = (r, h') \<Longrightarrow> draws h h' (succeeded r)"
proof -
  assume v: "vec_reserve n a h = (r, h')"
  obtain b1 h1 where s1: "step_ok h = (b1, h1)" by (cases "step_ok h")
  from v s1 have "h' = h \<or> (faults h' = faults h1 \<and> (succeeded r \<longrightarrow> b1))"
    by (auto simp: vec_reserve_def split: option.splits if_splits bool.splits)
  with step_ok_draws [OF s1] show ?thesis
    by (auto simp: draws_refl elim: draws_weaken dest: draws_same_faults)
qed

lemma vec_insert_draws: "vec_insert pos xs a h = (r, h') \<Longrightarrow> draws h h' (succeeded r)"
proof (cases "cells h a")
  case None
  assume "vec_insert pos xs a h = (r, h')"
  with None show ?thesis by (simp add: vec_insert_def draws_refl)
next
  case (Some s)
  assume v: "vec_insert pos xs a h = (r, h')"
  obtain b1 h1 where g: "(if length (elems s) + length xs \<le> capacity s then (True, h) else step_ok h)
      = (b1, h1)" by (cases "if length (elems s) + length xs \<le> capacity s then (True, h) else step_ok h")
  then have d1: "draws h h1 b1" by (auto simp: draws_refl split: if_splits dest: step_ok_draws)
  obtain b2 h2 where c: "construct_n (length xs) h1 = (b2, h2)"
    by (cases "construct_n (length xs) h1")
  note d2 = draws_trans [OF d1 construct_n_draws [OF c]]
  show ?thesis
  proof (cases b1)
    case False
    with v Some g have "h' = h1" "\<not> succeeded r" by (auto simp: vec_insert_def)
    with d1 show ?thesis by (auto elim: draws_weaken)
  next
    case True
    with v Some g c have "faults h' = faults h2" and "succeeded r \<longrightarrow> b1 \<and> b2"
      by (auto simp: vec_insert_def split: bool.splits)
    with d2 show ?thesis by (auto elim: draws_weaken dest: draws_same_faults)
  qed
qed

lemma vec_append_draws: "vec_append xs a h = (r, h') \<Longrightarrow> draws h h' (succeeded r)"
  unfolding vec_append_def by (rule vec_insert_draws)

lemma vec_push_back_draws: "vec_push_back t a h = (r, h') \<Longrightarrow> draws h h' (succeeded r)"
  unfolding vec_push_back_def by (rule vec_append_draws)

lemma vec_erase_draws: "vec_erase i a h = (r, h') \<Longrightarrow> draws h h' (succeeded r)"
  by (auto simp: vec_erase_def draws_def split: option.splits)

lemma opt_append_draws:
  "(if b then vec_append ys n else (\<lambda>h2. (Inr (), h2))) h = (r, h') \<Longrightarrow> draws h h' (succeeded r)"
  by (auto simp: draws_refl split: if_splits dest: vec_append_draws)

lemma then_do_draws:
  assumes "then_do m k h = (r, h')"
    and "\<And>r1 h1. m h = (r1, h1) \<Longrightarrow> draws h h1 (succeeded r1)"
    and "\<And>h1 r2 h2. m h = (Inr (), h1) \<Longrightarrow> k h1 = (r2, h2) \<Longrightarrow> draws h1 h2 (succeeded r2)"
  shows "draws h h' (succeeded r)"
proof (cases "m h")
  case (Pair r1 h1)
  show ?thesis
  proof (cases r1)
    case (Inl e)
    with Pair assms(1) have "h' = h1" "r = Inl e" by (simp_all add: then_do_def)
    with assms(2) [OF Pair] Inl show ?thesis by simp
  next
    case (Inr u)
    with Pair assms(1) have k: "k h1 = (r, h')" by (simp add: then_do_def)
    from Pair Inr have m: "m h = (Inr (), h1)" by simp
    from draws_trans [OF assms(2) [OF m] assms(3) [OF m k]] show ?thesis by simp
  qed
qed

lemma copy_unless_draws: "copy_unless p xs count n h = (r, h') \<Longrightarrow> draws h h' (succeeded r)"
proof (induction xs arbitrary: count h)
  case Nil
  then show ?case by (auto simp: draws_refl)
next
  case (Cons x xs)
  show ?case
  proof (cases "p x")
    case None
    with Cons.prems show ?thesis by (auto simp: draws_refl)
  next
    case (Some b)
    show ?thesis
    proof (cases b)
      case True
      with Some Cons.prems have "copy_unless p xs (Suc count) n h = (r, h')" by simp
      then show ?thesis by (rule Cons.IH)
    next
      case False
      obtain r1 h1 where pb: "vec_push_back x n h = (r1, h1)" by (cases "vec_push_back x n h")
      note d1 = vec_push_back_draws [OF pb]
      show ?thesis
      proof (cases r1)
        case (Inl e)
        with Some False pb Cons.prems have "h' = h1" "r = Inl e" by simp_all
        with d1 Inl show ?thesis by simp
      next
        case (Inr u)
        with Some False pb Cons.prems have "copy_unless p xs count n h1 = (r, h')" by simp
        from draws_trans [OF d1 Cons.IH [OF this]] Inr show ?thesis by simp
      qed
    qed
  qed
qed

lemma assign_storage_faults: "assign_storage p c h = (c', h') \<Longrightarrow> faults h' = faults h"
  by (auto simp: assign_storage_def sp_release_faults sp_acquire_faults)

lemma reset_storage_faults: "reset_storage c h = (c', h') \<Longrightarrow> faults h' = faults h"
  by (auto simp: reset_storage_def sp_release_faults)

lemma with_new_storage_draws:
  assumes "with_new_storage body c h = (r, c', h')"
    and "\<And>n h1 c2 h2. body n h1 = (r, c2, h2) \<Longrightarrow> draws h1 h2 (succeeded r)"
  shows "draws h h' (succeeded r)"
proof (cases "new_storage h")
  case (Pair r0 h1)
  note d0 = new_storage_draws [OF Pair]
  show ?thesis
  proof (cases r0)
    case (Inl e)
    with Pair assms(1) have "r = Inl e" "h' = h1" by (simp_all add: with_new_storage_def)
    with d0 Inl show ?thesis by simp
  next
    case (Inr n)
    with Pair assms(1) obtain h2 where b: "body n h1 = (r, c', h2)" and h': "h' = sp_release (Some n) h2"
      by (auto simp: with_new_storage_def split: prod.splits)
    from draws_trans [OF d0 assms(2) [OF b]] Inr have "draws h h2 (succeeded r)" by simp
    from draws_same_faults [OF this, of h'] h' show ?thesis by (simp add: sp_release_faults)
  qed
qed

lemma fill_then_swap_draws:
  assumes "fill_then_swap fill n c h = (r, c', h')"
    and "\<And>r1 h1. fill h = (r1, h1) \<Longrightarrow> draws h h1 (succeeded r1)"
  shows "draws h h' (succeeded r)"
proof (cases "fill h")
  case (Pair r1 h1)
  note d = assms(2) [OF Pair]
  show ?thesis
  proof (cases r1)
    case (Inl e)
    with Pair assms(1) have "r = Inl e" "h' = h1" by (simp_all add: fill_then_swap_def)
    with d Inl show ?thesis by simp
  next
    case (Inr u)
    with Pair assms(1) have "faults h' = faults h1" and "r = Inr ()"
      by (auto simp: fill_then_swap_def split: prod.splits dest: assign_storage_faults)
    with d Inr show ?thesis by (auto dest: draws_same_faults)
  qed
qed

lemma push_back_draws: "push_back t c h = (r, c', h') \<Longrightarrow> draws h h' (succeeded r)"
proof (cases "sp_use_count (storage c) h = 1")
  case True
  assume run: "push_back t c h = (r, c', h')"
  show ?thesis
  proof (cases "storage c")
    case None
    with run True show ?thesis by (simp add: push_back_def sp_use_count_def)
  next
    case (Some a)
    with run True have "vec_push_back t a h = (r, h')"
      by (auto simp: push_back_def split: prod.splits)
    then show ?thesis by (rule vec_push_back_draws)
  qed
next
  case False
  assume run: "push_back t c h = (r, c', h')"
  let ?copy = "\<lambda>n. case storage c of
                      None \<Rightarrow> vec_reserve 4 n
                    | Some a \<Rightarrow>
                        (\<lambda>h1. then_do (vec_reserve (length (vec_elems a h1) + 1 + 4) n)
                                (vec_append (vec_elems a h1) n) h1)"
  let ?fill = "\<lambda>n. then_do (?copy n) (vec_push_back t n)"
  from run False have w: "with_new_storage (\<lambda>n. fill_then_swap (?fill n) n c) c h = (r, c', h')"
    by (simp add: push_back_def)
  have dc: "draws h1 h2 (succeeded r1)" if "?copy n h1 = (r1, h2)" for n h1 r1 h2
    using that
    by (auto split: option.splits elim!: then_do_draws vec_reserve_draws vec_append_draws)
  have df: "draws h1 h2 (succeeded r1)" if "?fill n h1 = (r1, h2)" for n h1 r1 h2
    using that by (rule then_do_draws) (auto elim!: dc vec_push_back_draws)
  from w show ?thesis
  proof (rule with_new_storage_draws)
    fix n h1 c2 h2
    assume "fill_then_swap (?fill n) n c h1 = (r, c2, h2)"
    then show "draws h1 h2 (succeeded r)"
    proof (rule fill_then_swap_draws)
      fix r1 h3
      assume "?fill n h1 = (r1, h3)"
      then show "draws h1 h3 (succeeded r1)" by (rule df)
    qed
  qed
qed

lemma push_front_draws: "push_front t c h = (r, c', h') \<Longrightarrow> draws h h' (succeeded r)"
proof (cases "sp_use_count (storage c) h = 1")
  case True
  assume run: "push_front t c h = (r, c', h')"
  show ?thesis
  proof (cases "storage c")
    case None
    with run True show ?thesis by (simp add: push_front_def sp_use_count_def)
  next
    case (Some a)
    with run True have "vec_insert 0 [t] a h = (r, h')"
      by (auto simp: push_front_def split: prod.splits)
    then show ?thesis by (rule vec_insert_draws)
  qed
next
  case False
  assume run: "push_front t c h = (r, c', h')"
  let ?fill = "\<lambda>n. case storage c of
                   None \<Rightarrow> then_do (vec_reserve 4 n) (vec_push_back t n)
                 | Some a \<Rightarrow>
                     (\<lambda>h1. then_do (vec_reserve (length (vec_elems a h1) + 1 + 4) n)
                             (then_do (vec_push_back t n) (vec_append (vec_elems a h1) n)) h1)"
  from run False have w: "with_new_storage (\<lambda>n. fill_then_swap (?fill n) n c) c h = (r, c', h')"
    by (simp add: push_front_def)
  have df: "draws h1 h2 (succeeded r1)" if "?fill n h1 = (r1, h2)" for n h1 r1 h2
    using that
    by (auto split: option.splits
        elim!: then_do_draws vec_reserve_draws vec_append_draws vec_push_back_draws)
  from w show ?thesis
  proof (rule with_new_storage_draws)
    fix n h1 c2 h2
    assume "fill_then_swap (?fill n) n c h1 = (r, c2, h2)"
    then show "draws h1 h2 (succeeded r)"
    proof (rule fill_then_swap_draws)
      fix r1 h3
      assume "?fill n h1 = (r1, h3)"
      then show "draws h1 h3 (succeeded r1)" by (rule df)
    qed
  qed
qed

lemma clear_draws: "clear c h = (r, c', h') \<Longrightarrow> draws h h' (succeeded r)"
  by (auto simp: clear_def draws_def split: prod.splits dest: reset_storage_faults)

lemma remove_draws: "remove p c h = (r, c', h') \<Longrightarrow> draws h h' (succeeded r)"
proof (cases "storage c")
  case None
  assume "remove p c h = (r, c', h')"
  with None show ?thesis by (auto simp: remove_def draws_refl)
next
  case (Some a)
  assume run: "remove p c h = (r, c', h')"
  show ?thesis
  proof (cases "cells h a")
    case None
    with run Some show ?thesis by (auto simp: remove_def draws_refl)
  next
    case cell: (Some s)
    show ?thesis
    proof (cases "elems s = [] \<or> use_count h a = 1")
      case True
      have "faults h' = faults h"
      proof (cases "elems s = []")
        case True
        with run Some cell show ?thesis by (simp add: remove_def)
      next
        case nonempty: False
        with True have "use_count h a = 1" by simp
        with run Some cell nonempty show ?thesis
          by (cases "remove_loop p 0 (elems s) 0") (auto simp: remove_def)
      qed
      then show ?thesis by (simp add: draws_def)
    next
      case False
      let ?body = "\<lambda>n h1.
         case then_do (vec_reserve (length (elems s)) n) (copy_unless p (elems s) 0 n) h1 of
           (Inl e, h2) \<Rightarrow> (Inl e, c, h2)
         | (Inr count, h2) \<Rightarrow>
             if length (elems s) = length (vec_elems n h2) then (Inr count, c, h2)
             else if vec_elems n h2 = []
             then (case reset_storage c h2 of (c', h3) \<Rightarrow> (Inr count, c', h3))
             else (case assign_storage (Some n) c h2 of (c', h3) \<Rightarrow> (Inr count, c', h3))"
      from run Some cell False have "with_new_storage ?body c h = (r, c', h')"
        by (simp add: remove_def)
      then show ?thesis
      proof (rule with_new_storage_draws)
        fix n h1 c2 h2
        assume b: "?body n h1 = (r, c2, h2)"
        obtain r1 h3 where
          f: "then_do (vec_reserve (length (elems s)) n) (copy_unless p (elems s) 0 n) h1 = (r1, h3)"
          by (cases "then_do (vec_reserve (length (elems s)) n) (copy_unless p (elems s) 0 n) h1")
        then have d: "draws h1 h3 (succeeded r1)"
          by (rule then_do_draws) (auto elim: vec_reserve_draws copy_unless_draws)
        from b f have "faults h2 = faults h3" and "succeeded r \<longrightarrow> succeeded r1"
          by (auto split: sum.splits if_splits prod.splits
              dest: reset_storage_faults assign_storage_faults)
        with d show "draws h1 h2 (succeeded r)"
          by (auto elim: draws_weaken dest: draws_same_faults)
      qed
    qed
  qed
qed

lemma removeAt_draws: "removeAt i c h = (r, c', h') \<Longrightarrow> draws h h' (succeeded r)"
proof (cases "storage c")
  case None
  assume "removeAt i c h = (r, c', h')"
  with None show ?thesis by (auto simp: removeAt_def draws_refl)
next
  case (Some a)
  assume run: "removeAt i c h = (r, c', h')"
  show ?thesis
  proof (cases "cells h a")
    case None
    with run Some show ?thesis by (auto simp: removeAt_def draws_refl)
  next
    case cell: (Some s)
    show ?thesis
    proof (cases "i = length (elems s) \<or> length (elems s) = 1 \<or> use_count h a = 1")
      case True
      have "faults h' = faults h"
      proof (cases "i = length (elems s)")
        case True
        with run Some cell show ?thesis by (simp add: removeAt_def)
      next
        case ni: False
        show ?thesis
        proof (cases "length (elems s) = 1")
          case True
          with run Some cell ni show ?thesis
            by (auto simp: removeAt_def split: prod.splits dest: reset_storage_faults)
        next
          case nl: False
          with True ni have "use_count h a = 1" by simp
          with run Some cell ni nl show ?thesis
            by (auto simp: removeAt_def vec_erase_def)
        qed
      qed
      then show ?thesis by (simp add: draws_def)
    next
      case False
      let ?fill = "\<lambda>n. then_do (vec_reserve (length (elems s)) n)
                         (then_do
                            (if i \<noteq> 0 then vec_append (take i (elems s)) n
                             else (\<lambda>h2. (Inr (), h2)))
                            (if Suc i \<noteq> length (elems s)
                             then vec_append (drop (Suc i) (elems s)) n
                             else (\<lambda>h2. (Inr (), h2))))"
      let ?body = "\<lambda>n h1. case ?fill n h1 of
                           (Inl e, h2) \<Rightarrow> (Inl e, c, h2)
                         | (Inr u, h2) \<Rightarrow>
                             (case assign_storage (Some n) c h2 of
                                (c', h3) \<Rightarrow> (Inr True, c', h3))"
      from run Some cell False have "with_new_storage ?body c h = (r, c', h')"
        by (simp add: removeAt_def)
      then show ?thesis
      proof (rule with_new_storage_draws)
        fix n h1 c2 h2
        assume b: "?body n h1 = (r, c2, h2)"
        obtain r1 h3 where f: "?fill n h1 = (r1, h3)" by (cases "?fill n h1")
        then have d: "draws h1 h3 (succeeded r1)"
          by (rule then_do_draws)
             (auto elim!: vec_reserve_draws then_do_draws opt_append_draws)
        from b f have "faults h2 = faults h3" and "succeeded r \<longrightarrow> succeeded r1"
          by (auto split: sum.splits prod.splits dest: assign_storage_faults)
        with d show "draws h1 h2 (succeeded r)"
          by (auto elim: draws_weaken dest: draws_same_faults)
      qed
    qed
  qed
qed

lemma removeFirst_draws: "removeFirst p c h = (r, c', h') \<Longrightarrow> draws h h' (succeeded r)"
  by (auto simp: removeFirst_def draws_refl split: option.splits if_splits sum.splits
      dest: removeAt_draws)

lemma removeLast_draws: "removeLast p c h = (r, c', h') \<Longrightarrow> draws h h' (succeeded r)"
  by (auto simp: removeLast_def draws_refl split: option.splits if_splits sum.splits
      dest: removeAt_draws)

lemma returning_succeeded:
  "returning f x = (r, c', h') \<Longrightarrow> \<exists>r0. x = (r0, c', h') \<and> succeeded r = succeeded r0"
  by (auto simp: returning_def split: prod.splits sum.splits)

lemma apply_op_draws: "apply_op x c h = (r, c', h') \<Longrightarrow> draws h h' (succeeded r)"
  by (cases x)
     (auto dest!: returning_succeeded
       dest: push_front_draws push_back_draws clear_draws remove_draws removeFirst_draws
         removeLast_draws
       simp: emplace_back_push_back)

subsection \<open>A predicate that throws\<close>

lemma copy_unless_total:
  "copy_unless p xs count n h = (Inr k, h') \<Longrightarrow> None \<notin> set (map p xs)"
proof (induction xs arbitrary: count h)
  case Nil
  then show ?case by simp
next
  case (Cons x xs)
  show ?case
  proof (cases "p x")
    case None
    with Cons.prems show ?thesis by simp
  next
    case (Some b)
    show ?thesis
    proof (cases b)
      case True
      with Some Cons.prems have "copy_unless p xs (Suc count) n h = (Inr k, h')" by simp
      from Cons.IH [OF this] Some show ?thesis by simp
    next
      case False
      obtain r1 h1 where pb: "vec_push_back x n h = (r1, h1)" by (cases "vec_push_back x n h")
      with Some False Cons.prems have "copy_unless p xs count n h1 = (Inr k, h')"
        by (cases r1) auto
      from Cons.IH [OF this] Some show ?thesis by simp
    qed
  qed
qed

lemma remove_loop_total:
  "remove_loop p i xs count = (Inr k, ys) \<Longrightarrow> None \<notin> set (map p (drop i xs))"
proof (induction p i xs count rule: remove_loop.induct)
  case (1 p i xs count)
  show ?case
  proof (cases "i < length xs")
    case False
    then show ?thesis by simp
  next
    case True
    then have d: "drop i xs = xs ! i # drop (Suc i) xs" by (simp add: Cons_nth_drop_Suc)
    show ?thesis
    proof (cases "p (xs ! i)")
      case None
      with True "1.prems" show ?thesis by (simp add: remove_loop.simps [of p i xs count])
    next
      case (Some b)
      show ?thesis
      proof (cases b)
        case False
        then have bF: "b = False" by simp
        from bF Some True "1.prems" have "remove_loop p (Suc i) xs count = (Inr k, ys)"
          by (simp add: remove_loop.simps [of p i xs count])
        from "1.IH"(2) [OF True Some bF this] d Some show ?thesis by simp
      next
        case True': True
        then have bT: "b = True" by simp
        from bT Some True "1.prems"
        have "remove_loop p i (take i xs @ drop (Suc i) xs) (Suc count) = (Inr k, ys)"
          by (simp add: remove_loop.simps [of p i xs count])
        from "1.IH"(1) [OF True Some bT this] d Some True show ?thesis
          by (simp add: min_def)
      qed
    qed
  qed
qed

lemma remove_total:
  assumes "remove p c h = (Inr k, c', h')"
  shows "None \<notin> set (map p (contents c h))"
proof (cases "storage c")
  case None
  then show ?thesis by (simp add: contents_def)
next
  case (Some a)
  show ?thesis
  proof (cases "cells h a")
    case None
    with Some show ?thesis by (simp add: contents_def vec_elems_def)
  next
    case cell: (Some s)
    with Some have xs: "contents c h = elems s" by (simp add: contents_def vec_elems_def)
    show ?thesis
    proof (cases "elems s = []")
      case True
      with xs show ?thesis by simp
    next
      case nonempty: False
      show ?thesis
      proof (cases "use_count h a = 1")
        case True
        with assms Some cell nonempty obtain ys where "remove_loop p 0 (elems s) 0 = (Inr k, ys)"
          by (cases "remove_loop p 0 (elems s) 0") (auto simp: remove_def)
        from remove_loop_total [OF this] xs show ?thesis by simp
      next
        case False
        let ?body = "\<lambda>n h1.
           case then_do (vec_reserve (length (elems s)) n) (copy_unless p (elems s) 0 n) h1 of
             (Inl e, h2) \<Rightarrow> (Inl e, c, h2)
           | (Inr count, h2) \<Rightarrow>
               if length (elems s) = length (vec_elems n h2) then (Inr count, c, h2)
               else if vec_elems n h2 = []
               then (case reset_storage c h2 of (c', h3) \<Rightarrow> (Inr count, c', h3))
               else (case assign_storage (Some n) c h2 of (c', h3) \<Rightarrow> (Inr count, c', h3))"
        from assms Some cell nonempty False have "with_new_storage ?body c h = (Inr k, c', h')"
          by (simp add: remove_def)
        then show ?thesis
        proof (cases rule: with_new_storage_cases)
          case (no_memory e)
          then show ?thesis by simp
        next
          case (ran n h1 h2)
          obtain r1 h3 where
            f: "then_do (vec_reserve (length (elems s)) n) (copy_unless p (elems s) 0 n) h1 = (r1, h3)"
            by (cases "then_do (vec_reserve (length (elems s)) n) (copy_unless p (elems s) 0 n) h1")
          with ran(2) obtain k' where "r1 = Inr k'" by (cases r1) auto
          with f obtain h4 where "copy_unless p (elems s) 0 n h4 = (Inr k', h3)"
            by (auto elim: then_do_Inr)
          from copy_unless_total [OF this] xs show ?thesis by simp
        qed
      qed
    qed
  qed
qed

lemma find_if_throws: "throws_before_match p xs \<longleftrightarrow> \<not> succeeded (find_if p xs)"
proof (induction xs)
  case Nil
  then show ?case by simp
next
  case (Cons x xs)
  then show ?case
    by (cases "find_if p xs") (auto split: option.splits bool.splits)
qed

lemma removeFirst_throws:
  assumes "throws_before_match p (contents c h)" and "removeFirst p c h = (r, c', h')"
  shows "\<not> succeeded r"
proof (cases "storage c")
  case None
  with assms(1) show ?thesis by (simp add: contents_def)
next
  case (Some a)
  show ?thesis
  proof (cases "cells h a")
    case None
    with Some assms(1) show ?thesis by (simp add: contents_def vec_elems_def)
  next
    case cell: (Some s)
    with Some assms(1) have t: "throws_before_match p (elems s)"
      by (simp add: contents_def vec_elems_def)
    then have "elems s \<noteq> []" by auto
    moreover from t obtain e where "find_if p (elems s) = Inl e"
      by (cases "find_if p (elems s)") (auto simp: find_if_throws)
    ultimately show ?thesis using assms(2) Some cell by (auto simp: removeFirst_def)
  qed
qed

lemma removeLast_throws:
  assumes "throws_before_match p (rev (contents c h))" and "removeLast p c h = (r, c', h')"
  shows "\<not> succeeded r"
proof (cases "storage c")
  case None
  with assms(1) show ?thesis by (simp add: contents_def)
next
  case (Some a)
  show ?thesis
  proof (cases "cells h a")
    case None
    with Some assms(1) show ?thesis by (simp add: contents_def vec_elems_def)
  next
    case cell: (Some s)
    with Some assms(1) have t: "throws_before_match p (rev (elems s))"
      by (simp add: contents_def vec_elems_def)
    then have "elems s \<noteq> []" by auto
    moreover from t obtain e where "find_if p (rev (elems s)) = Inl e"
      by (cases "find_if p (rev (elems s))") (auto simp: find_if_throws)
    ultimately show ?thesis using assms(2) Some cell by (auto simp: removeLast_def)
  qed
qed

lemma apply_op_pred_throws:
  assumes "pred_throws x (contents c h)" and "apply_op x c h = (r, c', h')"
  shows "\<not> succeeded r"
proof (cases x)
  case (Remove p)
  show ?thesis
  proof
    assume "succeeded r"
    then obtain u where "r = Inr u" by (cases r) auto
    with assms(2) Remove obtain k where "remove p c h = (Inr k, c', h')"
      by (auto simp: returning_Inr)
    from remove_total [OF this] assms(1) Remove show False by simp
  qed
next
  case (RemoveFirst p)
  with assms show ?thesis by (auto dest!: returning_succeeded dest: removeFirst_throws)
next
  case (RemoveLast p)
  with assms show ?thesis by (auto dest!: returning_succeeded dest: removeLast_throws)
qed (use assms in simp_all)

subsection \<open>Unfolding the model on a concrete state\<close>

lemmas store_defs =
  step_ok_def new_storage_def sp_use_count_def sp_acquire_def sp_release_def
  vec_elems_def vec_reserve_def vec_insert_def vec_append_def vec_push_back_def vec_erase_def
  deref_def then_do_def

lemmas vector_defs =
  vector_new_def copy_def assign_storage_def reset_storage_def with_new_storage_def
  fill_then_swap_def clear_def push_front_def push_back_def emplace_back_def remove_def
  removeAt_def removeFirst_def removeLast_def heap_init_def empty_storage_def

subsection \<open>The model on the example program\<close>

lemma any_match_pure:
  "pure_pred p \<Longrightarrow> any_match p xs = Inr (\<exists>x \<in> set xs. matches p x)"
proof (induction xs)
  case Nil
  then show ?case by simp
next
  case (Cons x xs)
  from Cons.prems have "p x \<noteq> None" by (metis pure_pred_def rangeI)
  with Cons show ?case by (cases "p x") (auto simp: matches_def split: bool.splits)
qed

lemma exists_alone:
  assumes "vector_ok c h" and "pure_pred p"
  shows "fst (exists p c h) = Inr (\<exists>x \<in> set (contents c h). matches p x)"
proof (cases "storage c")
  case None
  then show ?thesis
    by (simp add: exists_def copy_def exists_scan_def snapshot_unusable_def contents_def)
next
  case (Some a)
  with assms(1) obtain s where "cells h a = Some s" by (auto simp: vector_ok_def)
  with Some any_match_pure [OF assms(2), of "elems s"] show ?thesis
    by (cases "elems s = []")
       (simp_all add: exists_def copy_def exists_scan_def snapshot_unusable_def contents_def
         deref_def sp_acquire_def vec_elems_def)
qed

text \<open>
  The steps of example.cpp with the values its comments give: \<^verbatim>\<open>v1\<close> is \<open>{1, 2}\<close>,
  \<^verbatim>\<open>v2\<close> shares it and becomes \<open>{3, 1, 2}\<close> by \<^verbatim>\<open>push_front\<close> while \<^verbatim>\<open>v1\<close> keeps
  \<open>{1, 2}\<close>, and removing 3 and 2 from \<^verbatim>\<open>v2\<close> returns 2 and leaves \<open>{1}\<close>.
\<close>

lemma example_cpp:
  "(case run [PushBack 1, EmplaceBack 2] vector_new (heap_init [] :: nat heap) of
      (rs1, v1, h1) \<Rightarrow>
        contents v1 h1 = [1, 2] \<and>
        (case vector_copy v1 h1 of
           (v2, h2) \<Rightarrow>
             (case push_front 3 v2 h2 of
                (r3, v2', h3) \<Rightarrow>
                  contents v2' h3 = [3, 1, 2] \<and> contents v1 h3 = [1, 2] \<and>
                  fst (exists (\<lambda>a. Some (a = 3)) v2' h3) = Inr True \<and>
                  fst (exists (\<lambda>a. Some (a = 4)) v2' h3) = Inr False \<and>
                  (case remove (\<lambda>a. Some (a = 3 \<or> a = 2)) v2' h3 of
                     (removed, v2'', h4) \<Rightarrow>
                       removed = Inr 2 \<and> contents v2'' h4 = [1] \<and> contents v1 h4 = [1, 2]))))"
  by (simp add: store_defs vector_defs contents_def returning_def vector_copy_def exists_def
      exists_scan_def snapshot_unusable_def remove_loop.simps Let_def)

section \<open>The claims\<close>

subsection \<open>The snapshot iterator\<close>

text \<open>
  Claim C7, as amended. \<^verbatim>\<open>begin()\<close> on a container whose \<^verbatim>\<open>_storage\<close> is not null yields
  a bound iterator: it holds the captured pointer (the storage has one more holder), the
  position of the first element and the captured end position. On a container whose
  \<^verbatim>\<open>_storage\<close> is null, \<^verbatim>\<open>begin()\<close> yields the sentinel and adds no holder, as \<^verbatim>\<open>end()\<close>
  and default construction always do.
\<close>

theorem begin_bound_unless_null:
  "(storage c = Some a \<longrightarrow>
      fst (begin_it c h) =
        \<lparr>it_storage = Some a, it_it = (Some a, 0), it_end = (Some a, int (length (contents c h)))\<rparr> \<and>
      use_count (snd (begin_it c h)) a = Suc (use_count h a)) \<and>
   (storage c = None \<longrightarrow> fst (begin_it c h) = iterator_default \<and> snd (begin_it c h) = h) \<and>
   end_it c = iterator_default \<and> it_storage iterator_default = None"
  by (intro conjI impI)
     (simp_all add: begin_it_def end_it_def contents_def sp_acquire_def,
      simp add: iterator_default_def)

theorem begin_bound_unless_null_witness:
  "fst (begin_it \<lparr>storage = Some 1\<rparr>
          \<lparr>cells = (\<lambda>a. None)(1 \<mapsto> \<lparr>elems = [7, 8 :: nat], capacity = 4\<rparr>),
           use_count = (\<lambda>a. 0)(1 := 1), next_addr = 2, faults = []\<rparr>)
     = \<lparr>it_storage = Some 1, it_it = (Some 1, 0), it_end = (Some 1, 2)\<rparr> \<and>
   fst (begin_it vector_new (heap_init [] :: nat heap)) = iterator_default"
  using begin_bound_unless_null [of "\<lparr>storage = Some 1\<rparr>" 1
          "\<lparr>cells = (\<lambda>a. None)(1 \<mapsto> \<lparr>elems = [7, 8 :: nat], capacity = 4\<rparr>),
           use_count = (\<lambda>a. 0)(1 := 1), next_addr = 2, faults = []\<rparr>"]
    begin_bound_unless_null [of vector_new 1 "heap_init [] :: nat heap"]
  by (simp add: contents_def vec_elems_def vector_new_def iterator_default_def)

text \<open>
  Claim C7 as it was stated, that \<^verbatim>\<open>begin()\<close> is bound also on a container with a null
  \<^verbatim>\<open>_storage\<close>, fails on the empty container.
\<close>

theorem begin_null_counterexample:
  "\<not> (it_storage (fst (begin_it vector_new (heap_init [] :: nat heap))) \<noteq> None)"
  by (simp add: begin_it_def vector_new_def iterator_default_def)

text \<open>
  Claim C8. Two sentinels are equal; a bound iterator and a sentinel are equal, whichever
  is the left operand, exactly when the cursor of the bound one is at its captured end;
  two bound iterators are equal exactly when their cursors are; and \<^verbatim>\<open>operator!=\<close> is
  the negation of \<^verbatim>\<open>operator==\<close>.
\<close>

theorem iterator_equality:
  "(it_storage l = None \<and> it_storage r = None \<longrightarrow> it_eq l r) \<and>
   (it_storage l \<noteq> None \<and> it_storage r = None \<longrightarrow>
      (it_eq l r \<longleftrightarrow> it_it l = it_end l) \<and> (it_eq r l \<longleftrightarrow> it_it l = it_end l)) \<and>
   (it_storage l \<noteq> None \<and> it_storage r \<noteq> None \<longrightarrow> (it_eq l r \<longleftrightarrow> it_it l = it_it r)) \<and>
   (it_neq l r \<longleftrightarrow> \<not> it_eq l r)"
  by (auto simp: it_eq_def it_neq_def)

theorem iterator_equality_witness:
  "it_eq iterator_default iterator_default \<and>
   \<not> it_eq \<lparr>it_storage = Some 1, it_it = (Some 1, 0), it_end = (Some 1, 2)\<rparr> iterator_default \<and>
   it_eq iterator_default \<lparr>it_storage = Some 1, it_it = (Some 1, 2), it_end = (Some 1, 2)\<rparr> \<and>
   \<not> it_eq \<lparr>it_storage = Some 1, it_it = (Some 1, 0), it_end = (Some 1, 2)\<rparr>
           \<lparr>it_storage = Some 1, it_it = (Some 1, 1), it_end = (Some 1, 2)\<rparr> \<and>
   it_neq \<lparr>it_storage = Some 1, it_it = (Some 1, 0), it_end = (Some 1, 2)\<rparr> iterator_default"
  using iterator_equality [of iterator_default iterator_default]
    iterator_equality [of "\<lparr>it_storage = Some 1, it_it = (Some 1, 0), it_end = (Some 1, 2)\<rparr>" iterator_default]
    iterator_equality [of "\<lparr>it_storage = Some 1, it_it = (Some 1, 2), it_end = (Some 1, 2)\<rparr>" iterator_default]
    iterator_equality [of "\<lparr>it_storage = Some 1, it_it = (Some 1, 0), it_end = (Some 1, 2)\<rparr>"
       "\<lparr>it_storage = Some 1, it_it = (Some 1, 1), it_end = (Some 1, 2)\<rparr>"]
  by (simp add: iterator_default_def)

text \<open>
  Claim C10. On a bound iterator, postfix \<^verbatim>\<open>++\<close> moves the cursor by one and returns a
  copy of the iterator as it is after the move: the returned value is equal to the
  iterator afterwards and not to the iterator before. Postfix \<^verbatim>\<open>--\<close> does the same in the
  other direction.
\<close>

theorem postfix_returns_advanced:
  assumes "it_storage i \<noteq> None"
  shows "(case it_post_inc i h of
            (returned, this, h') \<Rightarrow>
              returned = this \<and> it_it this = cursor_move 1 (it_it i) \<and>
              it_eq returned this \<and> \<not> it_eq returned i) \<and>
         (case it_post_dec i h of
            (returned, this, h') \<Rightarrow>
              returned = this \<and> it_it this = cursor_move (- 1) (it_it i) \<and>
              it_eq returned this \<and> \<not> it_eq returned i)"
proof -
  have "cursor_move d cur \<noteq> cur" if "d \<noteq> 0" for d cur
    using that by (cases cur) (simp add: cursor_move_def)
  from this [of 1] this [of "- 1"] assms show ?thesis
    by (auto simp: it_post_inc_def it_post_dec_def it_eq_def Let_def)
qed

theorem postfix_returns_advanced_witness:
  "(case it_post_inc \<lparr>it_storage = Some 1, it_it = (Some 1, 0), it_end = (Some 1, 2)\<rparr>
           (heap_init [] :: nat heap) of
      (returned, this, h') \<Rightarrow>
        returned = this \<and> it_it this = (Some 1, 1) \<and> it_eq returned this \<and>
        \<not> it_eq returned \<lparr>it_storage = Some 1, it_it = (Some 1, 0), it_end = (Some 1, 2)\<rparr>) \<and>
   (case it_post_dec \<lparr>it_storage = Some 1, it_it = (Some 1, 1), it_end = (Some 1, 2)\<rparr>
           (heap_init [] :: nat heap) of
      (returned, this, h') \<Rightarrow>
        returned = this \<and> it_it this = (Some 1, 0) \<and> it_eq returned this \<and>
        \<not> it_eq returned \<lparr>it_storage = Some 1, it_it = (Some 1, 1), it_end = (Some 1, 2)\<rparr>)"
  using postfix_returns_advanced
      [of "\<lparr>it_storage = Some 1, it_it = (Some 1, 0), it_end = (Some 1, 2)\<rparr>" "heap_init [] :: nat heap"]
    postfix_returns_advanced
      [of "\<lparr>it_storage = Some 1, it_it = (Some 1, 1), it_end = (Some 1, 2)\<rparr>" "heap_init [] :: nat heap"]
  by (simp add: cursor_move_def split: prod.splits)

subsection \<open>Snapshots and mutation\<close>

text \<open>
  Claim C1, as amended. From a well-formed state, take a read-only view or a snapshot
  iterator of a container and then run any list of mutating operations on the
  container, some of which may throw. The storage the view or iterator holds is the same afterwards: the view has
  the size and, at every index, the element (or the out-of-range error) of the container
  at the time of the capture, and the iterator, advanced any number of times,
  dereferences to what it did. More generally, while a storage has a holder besides the
  container (a second holder if the container points to it), the container's operations
  never change it, and they leave it that holder.
\<close>

theorem snapshot_isolation:
  assumes ok: "vector_ok c h"
  shows "(\<forall>a rs c' h'. held_elsewhere a c h \<and> run ops c h = (rs, c', h')
            \<longrightarrow> cells h' a = cells h a \<and> held_elsewhere a c' h') \<and>
         (case read_only_copy c h of
            (S, h1) \<Rightarrow>
              (case run ops c h1 of
                 (rs, c', h2) \<Rightarrow>
                   deref (rv_storage S) h2 = deref (rv_storage S) h1 \<and>
                   rv_size S h2 = Inr (length (contents c h)) \<and>
                   (\<forall>pos. rv_at S pos h2 = vec_at pos (contents c h)))) \<and>
         (case begin_it c h of
            (i, h1) \<Rightarrow>
              (case run ops c h1 of
                 (rs, c', h2) \<Rightarrow>
                   deref (it_storage i) h2 = deref (it_storage i) h1 \<and>
                   (\<forall>k. it_deref ((it_pre_inc ^^ k) i) h2 = it_deref ((it_pre_inc ^^ k) i) h1)))"
proof (intro conjI allI impI)
  fix a rs c' h'
  assume "held_elsewhere a c h \<and> run ops c h = (rs, c', h')"
  with run_frame [of ops c h rs c' h' a] ok
  show "cells h' a = cells h a" and "held_elsewhere a c' h'" by simp_all
next
  obtain S h1 where v: "read_only_copy c h = (S, h1)" by (cases "read_only_copy c h")
  obtain rs c' h2 where r: "run ops c h1 = (rs, c', h2)" by (cases "run ops c h1")
  from read_only_copy_held [OF ok v] obtain a s where a: "rv_storage S = Some a"
    and held: "held_elsewhere a c h1" and ok1: "vector_ok c h1"
    and s: "cells h1 a = Some s" and e: "elems s = contents c h" by blast
  from run_frame [OF r ok1 held] have "cells h2 a = cells h1 a" by simp
  with a s e have "deref (rv_storage S) h2 = deref (rv_storage S) h1"
    and "rv_size S h2 = Inr (length (contents c h))"
    and "\<forall>pos. rv_at S pos h2 = vec_at pos (contents c h)"
    by (simp_all add: deref_def rv_size_def rv_at_def)
  with v r show "case read_only_copy c h of
            (S, h1) \<Rightarrow>
              (case run ops c h1 of
                 (rs, c', h2) \<Rightarrow>
                   deref (rv_storage S) h2 = deref (rv_storage S) h1 \<and>
                   rv_size S h2 = Inr (length (contents c h)) \<and>
                   (\<forall>pos. rv_at S pos h2 = vec_at pos (contents c h)))"
    by simp
next
  obtain i h1 where b: "begin_it c h = (i, h1)" by (cases "begin_it c h")
  obtain rs c' h2 where r: "run ops c h1 = (rs, c', h2)" by (cases "run ops c h1")
  have "deref (it_storage i) h2 = deref (it_storage i) h1 \<and>
        (\<forall>k. it_deref ((it_pre_inc ^^ k) i) h2 = it_deref ((it_pre_inc ^^ k) i) h1)"
  proof (cases "it_storage i")
    case None
    with begin_it_sentinel [OF b] it_pre_inc_funpow [of _ i] show ?thesis
      by (simp add: it_deref_def deref_def)
  next
    case (Some a)
    from begin_it_held [OF ok b Some] have held: "held_elsewhere a c h1" and ok1: "vector_ok c h1"
      and cur: "fst (it_it i) = Some a" by simp_all
    from run_frame [OF r ok1 held] have "cells h2 a = cells h1 a" by simp
    with Some cur it_pre_inc_funpow [of _ i] show ?thesis
      by (simp add: it_deref_def deref_def)
  qed
  with b r show "case begin_it c h of
            (i, h1) \<Rightarrow>
              (case run ops c h1 of
                 (rs, c', h2) \<Rightarrow>
                   deref (it_storage i) h2 = deref (it_storage i) h1 \<and>
                   (\<forall>k. it_deref ((it_pre_inc ^^ k) i) h2 = it_deref ((it_pre_inc ^^ k) i) h1))"
    by simp
qed

theorem snapshot_isolation_witness:
  "(case read_only_copy demo_vector (demo_heap 1 []) of
      (S, h1) \<Rightarrow>
        (case run [Remove (\<lambda>v. Some (v = 2)), PushFront 2] demo_vector h1 of
           (rs, c', h2) \<Rightarrow>
             rv_size S h2 = Inr 2 \<and> rv_at S 0 h2 = Inr 1 \<and> rv_at S 1 h2 = Inr 2 \<and>
             rv_at S 2 h2 = Inl OutOfRange)) \<and>
   cells (snd (snd (run [Remove (\<lambda>v. Some (v = 2)), PushFront 2] demo_vector (demo_heap 2 [])))) 1
     = cells (demo_heap 2 []) 1"
proof -
  have ok: "vector_ok demo_vector (demo_heap k [])" if "0 < k" for k
    using that
    by (simp add: vector_ok_def heap_ok_def demo_vector_def demo_heap_def empty_storage_def)
  have held: "held_elsewhere 1 demo_vector (demo_heap 2 [])"
    by (simp add: held_elsewhere_def demo_vector_def demo_heap_def)
  have c: "contents demo_vector (demo_heap 1 []) = [1, 2]"
    by (simp add: contents_def vec_elems_def demo_vector_def demo_heap_def empty_storage_def)
  from snapshot_isolation [OF ok, of 1 "[Remove (\<lambda>v. Some (v = 2)), PushFront 2]"] c
  have "case read_only_copy demo_vector (demo_heap 1 []) of
      (S, h1) \<Rightarrow>
        (case run [Remove (\<lambda>v. Some (v = 2)), PushFront 2] demo_vector h1 of
           (rs, c', h2) \<Rightarrow>
             rv_size S h2 = Inr 2 \<and> rv_at S 0 h2 = Inr 1 \<and> rv_at S 1 h2 = Inr 2 \<and>
             rv_at S 2 h2 = Inl OutOfRange)"
    by (simp add: vec_at_def del: run.simps split: prod.splits)
  moreover
  have "cells (snd (snd (run [Remove (\<lambda>v. Some (v = 2)), PushFront 2] demo_vector (demo_heap 2 [])))) 1
     = cells (demo_heap 2 []) 1"
  proof -
    let ?R = "run [Remove (\<lambda>v. Some (v = 2)), PushFront 2] demo_vector (demo_heap 2 [])"
    have ok2: "vector_ok demo_vector (demo_heap 2 [])" by (rule ok) simp
    have R: "?R = (fst ?R, fst (snd ?R), snd (snd ?R))" by simp
    from snapshot_isolation [OF ok2, of "[Remove (\<lambda>v. Some (v = 2)), PushFront 2]"]
    have "held_elsewhere 1 demo_vector (demo_heap 2 []) \<and> ?R = (fst ?R, fst (snd ?R), snd (snd ?R))
            \<longrightarrow> cells (snd (snd ?R)) 1 = cells (demo_heap 2 []) 1 \<and>
                held_elsewhere 1 (fst (snd ?R)) (snd (snd ?R))"
      by blast
    with held R show ?thesis by blast
  qed
  ultimately show ?thesis by (simp del: run.simps)
qed

text \<open>
  Claim C1 as it was stated also says that a storage, once it has had a second holder, is
  never written in place for the rest of its life. The source tests the count at each
  call, so this fails as soon as the second holder is gone. The container built by
  \<^verbatim>\<open>push_back(1)\<close> and \<^verbatim>\<open>emplace_back(2)\<close> gives a read-only view: its storage, at
  address 1, has two holders and the elements 1, 2. The view is destroyed. Then
  \<^verbatim>\<open>push_back(3)\<close> leaves the container pointing to the same storage, which now has the
  elements 1, 2, 3.
\<close>

theorem once_shared_counterexample:
  "run [PushBack 1, EmplaceBack 2] vector_new (heap_init [])
     = ([Inr Done, Inr Done], demo_vector, demo_heap 1 []) \<and>
   read_only_copy demo_vector (demo_heap 1 []) = (\<lparr>rv_storage = Some 1\<rparr>, demo_heap 2 []) \<and>
   sp_use_count (storage demo_vector) (demo_heap 2 []) = 2 \<and>
   vec_elems 1 (demo_heap 2 []) = [1, 2] \<and>
   storage (fst (snd (push_back 3 demo_vector (rv_destroy \<lparr>rv_storage = Some 1\<rparr> (demo_heap 2 [])))))
     = Some 1 \<and>
   vec_elems 1 (snd (snd (push_back 3 demo_vector (rv_destroy \<lparr>rv_storage = Some 1\<rparr> (demo_heap 2 [])))))
     = [1, 2, 3]"
  by (simp add: store_defs vector_defs returning_def read_only_copy_def rv_new_def rv_destroy_def
      demo_vector_def demo_heap_def Let_def numeral_2_eq_2)

text \<open>
  Claim C2. On a container that is the only holder of its storage (or has none), a run of
  operations in which every call returns leaves the elements that the same operations
  give on a plain list: prepend, append, filter out the matches, remove the first or last
  match, empty. Every call does return when no library step fails and no predicate
  throws. The container is again the only holder afterwards.
\<close>

theorem sequential_consistency:
  assumes "vector_ok c h" and "sole_holder c h" and "run ops c h = (rs, c', h')"
  shows "((\<forall>r \<in> set rs. succeeded r) \<longrightarrow> contents c' h' = ref_run ops (contents c h)) \<and>
         (fault_free h \<and> (\<forall>x \<in> set ops. pure_op x) \<longrightarrow> (\<forall>r \<in> set rs. succeeded r)) \<and>
         sole_holder c' h' \<and> vector_ok c' h'"
  using assms
  by (auto dest: run_contents run_returns run_sole_holder run_vector_ok)

theorem sequential_consistency_witness:
  "contents
     (fst (snd (run [PushBack 1, EmplaceBack 2, PushFront 3, Remove (\<lambda>v. Some (v = 3 \<or> v = 2)),
                     PushBack 4, RemoveLast (\<lambda>v. Some (0 < v)), EmplaceBack 5,
                     RemoveFirst (\<lambda>v. Some (v = 1))]
                  vector_new (heap_init [] :: nat heap))))
     (snd (snd (run [PushBack 1, EmplaceBack 2, PushFront 3, Remove (\<lambda>v. Some (v = 3 \<or> v = 2)),
                     PushBack 4, RemoveLast (\<lambda>v. Some (0 < v)), EmplaceBack 5,
                     RemoveFirst (\<lambda>v. Some (v = 1))]
                  vector_new (heap_init [] :: nat heap))))
   = [5]"
proof -
  let ?ops = "[PushBack 1, EmplaceBack 2, PushFront 3, Remove (\<lambda>v. Some (v = 3 \<or> v = 2)),
               PushBack 4, RemoveLast (\<lambda>v. Some (0 < v)), EmplaceBack 5,
               RemoveFirst (\<lambda>v. Some (v = 1))] :: nat op list"
  let ?h = "heap_init [] :: nat heap"
  have ok: "vector_ok vector_new ?h"
    by (simp add: vector_ok_def heap_ok_def vector_new_def heap_init_def empty_storage_def)
  have sole: "sole_holder vector_new ?h" by (simp add: sole_holder_def vector_new_def)
  have run: "run ?ops vector_new ?h
      = (fst (run ?ops vector_new ?h), fst (snd (run ?ops vector_new ?h)),
         snd (snd (run ?ops vector_new ?h)))" by simp
  have ff: "fault_free ?h" by (simp add: fault_free_def heap_init_def)
  have pure: "\<forall>x \<in> set ?ops. pure_op x" by (auto simp: pure_pred_def)
  have ref: "ref_run ?ops (contents vector_new ?h) = [5]"
    by (simp add: contents_def vector_new_def matches_def ref_remove_last_def)
  from sequential_consistency [OF ok sole run] ff pure ref show ?thesis
    by (simp del: run.simps)
qed

subsection \<open>The remove family\<close>

text \<open>
  Claim C3. With a predicate that never throws, a call of \<^verbatim>\<open>remove\<close> that returns gives
  the number of elements that satisfied the predicate at the call, and leaves exactly the
  other elements, in their order, so that none of the remaining ones satisfies it. This
  is so whether the container was the only holder of its storage or not. The call does
  return when no library step fails.
\<close>

theorem remove_counts_and_filters:
  assumes "vector_ok c h" and "pure_pred p" and "remove p c h = (r, c', h')"
  shows "(fault_free h \<longrightarrow> succeeded r) \<and>
         (\<forall>n. r = Inr n \<longrightarrow>
              n = length (filter (matches p) (contents c h)) \<and>
              contents c' h' = filter (\<lambda>x. \<not> matches p x) (contents c h) \<and>
              (\<forall>x \<in> set (contents c' h'). \<not> matches p x))"
proof -
  from remove_effect [OF assms(1,3)] assms(2)
  have ret: "fault_free h \<longrightarrow> succeeded r"
    by (auto simp: succeeded_def)
  have "n = length (filter (matches p) (contents c h)) \<and>
        contents c' h' = filter (\<lambda>x. \<not> matches p x) (contents c h)" if "r = Inr n" for n
    using remove_effect [OF assms(1,3)] that assms(1)
    by (auto dest: kept_contents wrote_contents)
  with ret show ?thesis by auto
qed

theorem remove_counts_and_filters_witness:
  "fst (remove (\<lambda>v. Some (v = 3 \<or> v = 2)) demo_vector (demo_heap 1 [])) = Inr 1 \<and>
   contents (fst (snd (remove (\<lambda>v. Some (v = 3 \<or> v = 2)) demo_vector (demo_heap 1 []))))
            (snd (snd (remove (\<lambda>v. Some (v = 3 \<or> v = 2)) demo_vector (demo_heap 1 [])))) = [1] \<and>
   fst (remove (\<lambda>v. Some (v = 3 \<or> v = 2)) demo_vector (demo_heap 2 [])) = Inr 1 \<and>
   contents (fst (snd (remove (\<lambda>v. Some (v = 3 \<or> v = 2)) demo_vector (demo_heap 2 []))))
            (snd (snd (remove (\<lambda>v. Some (v = 3 \<or> v = 2)) demo_vector (demo_heap 2 [])))) = [1]"
proof -
  let ?p = "\<lambda>v :: nat. Some (v = 3 \<or> v = 2)"
  have ok: "vector_ok demo_vector (demo_heap k [])" if "0 < k" for k
    using that
    by (simp add: vector_ok_def heap_ok_def demo_vector_def demo_heap_def empty_storage_def)
  have pure: "pure_pred ?p" by (auto simp: pure_pred_def)
  have ff: "fault_free (demo_heap k [])" for k by (simp add: fault_free_def demo_heap_def)
  have c: "contents demo_vector (demo_heap k []) = [1, 2]" for k
    by (simp add: contents_def vec_elems_def demo_vector_def demo_heap_def empty_storage_def)
  have goal: "fst (remove ?p demo_vector (demo_heap k [])) = Inr 1 \<and>
      contents (fst (snd (remove ?p demo_vector (demo_heap k []))))
               (snd (snd (remove ?p demo_vector (demo_heap k [])))) = [1]" if "0 < k" for k
  proof -
    let ?R = "remove ?p demo_vector (demo_heap k [])"
    have R: "?R = (fst ?R, fst (snd ?R), snd (snd ?R))" by simp
    note T = remove_counts_and_filters [OF ok [OF that] pure R]
    from T ff [of k] have "succeeded (fst ?R)" by blast
    then obtain n where n: "fst ?R = Inr n" by (cases "fst ?R") (simp_all add: succeeded_def)
    with T have "n = length (filter (matches ?p) (contents demo_vector (demo_heap k []))) \<and>
        contents (fst (snd ?R)) (snd (snd ?R))
          = filter (\<lambda>x. \<not> matches ?p x) (contents demo_vector (demo_heap k []))"
      by blast
    then have "n = 1 \<and> contents (fst (snd ?R)) (snd (snd ?R)) = [1]"
      by (simp add: c matches_def)
    with n show ?thesis by simp
  qed
  from goal [of 1] goal [of 2] show ?thesis by simp
qed

text \<open>
  Claim C4 fails in the sole-holder branch of \<^verbatim>\<open>remove\<close>. A container that alone holds a
  storage with the one element 1 removes it: the call returns 1, and \<^verbatim>\<open>_storage\<close> still
  points to the storage, now empty with its capacity of 4. On the same state
  \<^verbatim>\<open>removeFirst\<close> leaves a null \<^verbatim>\<open>_storage\<close>, and so does \<^verbatim>\<open>remove\<close> itself when a
  read-only view shares the storage.
\<close>

theorem remove_in_place_keeps_empty_storage:
  "(case push_back (1 :: nat) vector_new (heap_init []) of
      (r0, c0, h0) \<Rightarrow>
        r0 = Inr () \<and> sp_use_count (storage c0) h0 = 1 \<and> contents c0 h0 = [1] \<and>
        (case remove (\<lambda>v. Some (v = 1)) c0 h0 of
           (r, c, h) \<Rightarrow>
             r = Inr 1 \<and> storage c \<noteq> None \<and> deref (storage c) h = Inr \<lparr>elems = [], capacity = 4\<rparr>) \<and>
        (case removeFirst (\<lambda>v. Some (v = 1)) c0 h0 of
           (r, c, h) \<Rightarrow> r = Inr True \<and> storage c = None) \<and>
        (case read_only_copy c0 h0 of
           (S, h1) \<Rightarrow>
             (case remove (\<lambda>v. Some (v = 1)) c0 h1 of
                (r, c, h) \<Rightarrow> r = Inr 1 \<and> storage c = None)))"
  by (simp add: store_defs vector_defs contents_def read_only_copy_def rv_new_def
      remove_loop.simps [of _ 0] Let_def)

subsection \<open>The queries\<close>

text \<open>
  Claim C5 fails: the emptiness test of \<^verbatim>\<open>exists\<close>, \<^verbatim>\<open>find_first\<close> and \<^verbatim>\<open>find_last\<close>
  reads the container's field, not the captured pointer. A container holds the one
  element 1 and a query for it has taken its copy of the pointer. Scanning at once finds
  the element. After a \<^verbatim>\<open>clear()\<close> in between, the captured storage is as it was, but
  the scan dereferences the null field. After a further \<^verbatim>\<open>push_back(2)\<close> and
  \<^verbatim>\<open>remove\<close> of the 2 the field points to an empty storage, and the scan reports no match
  (the default value) although the captured storage still holds the 1.
\<close>

theorem queries_read_live_field:
  "(case push_back (1 :: nat) vector_new (heap_init []) of
      (r0, c0, h0) \<Rightarrow>
        (case copy c0 h0 of
           (storage_copy, h1) \<Rightarrow>
             storage_copy \<noteq> None \<and>
             exists_scan (\<lambda>v. Some (v = 1)) storage_copy c0 h1 = Inr True \<and>
             find_first_scan (\<lambda>v. Some (v = 1)) 0 storage_copy c0 h1 = Inr 1 \<and>
             find_last_scan (\<lambda>v. Some (v = 1)) 0 storage_copy c0 h1 = Inr 1 \<and>
             (case clear c0 h1 of
                (r1, c1, h2) \<Rightarrow>
                  deref storage_copy h2 = deref storage_copy h1 \<and>
                  exists_scan (\<lambda>v. Some (v = 1)) storage_copy c1 h2 = Inl NullDereference \<and>
                  find_first_scan (\<lambda>v. Some (v = 1)) 0 storage_copy c1 h2 = Inl NullDereference \<and>
                  find_last_scan (\<lambda>v. Some (v = 1)) 0 storage_copy c1 h2 = Inl NullDereference \<and>
                  (case push_back 2 c1 h2 of
                     (r2, c2, h3) \<Rightarrow>
                       (case remove (\<lambda>v. Some (v = 2)) c2 h3 of
                          (r3, c3, h4) \<Rightarrow>
                            deref storage_copy h4 = deref storage_copy h1 \<and>
                            exists_scan (\<lambda>v. Some (v = 1)) storage_copy c3 h4 = Inr False \<and>
                            find_first_scan (\<lambda>v. Some (v = 1)) 0 storage_copy c3 h4 = Inr 0 \<and>
                            find_last_scan (\<lambda>v. Some (v = 1)) 0 storage_copy c3 h4 = Inr 0)))))"
  by (simp add: store_defs vector_defs snapshot_unusable_def exists_scan_def find_first_scan_def
      find_last_scan_def remove_loop.simps [of _ 0] Let_def)

subsection \<open>Failure in the copy branch\<close>

text \<open>
  Claim C6. Take an operation on a container that is not the only holder of its storage
  (the count is not 1, so no operation writes in place). The library steps of the call
  draw a prefix of the outcomes in stock. If one of the outcomes drawn is a failure (an
  allocation or an element construction has failed), or the predicate throws on an
  element the operation applies it to, the call throws. If the call throws, the container
  points to the storage it pointed to, its elements are the same, and every storage that
  existed before the call has its contents and its count unchanged; and it throws only
  on a failing library step or a throwing predicate. If the call returns, the container
  has all the elements of the completed operation.
\<close>

theorem copy_branch_all_or_nothing:
  assumes "vector_ok c h" and "sp_use_count (storage c) h \<noteq> 1"
    and "apply_op x c h = (r, c', h')"
  shows "faults h = consumed h h' @ faults h' \<and>
         (False \<in> set (consumed h h') \<or> pred_throws x (contents c h) \<longrightarrow> (\<exists>e. r = Inl e)) \<and>
         (\<forall>e. r = Inl e \<longrightarrow>
              c' = c \<and> contents c' h' = contents c h \<and>
              (\<forall>a < next_addr h. cells h' a = cells h a \<and> use_count h' a = use_count h a) \<and>
              (\<not> fault_free h \<or> \<not> pure_op x)) \<and>
         (succeeded r \<longrightarrow> contents c' h' = ref_op x (contents c h))"
proof -
  from draws_consumed [OF apply_op_draws [OF assms(3)]]
  have split: "faults h = consumed h h' @ faults h'"
    and drawn: "succeeded r \<longrightarrow> False \<notin> set (consumed h h')" by simp_all
  have thrown: "succeeded r \<longrightarrow> \<not> pred_throws x (contents c h)"
    using apply_op_pred_throws [OF _ assms(3)] by blast
  have propagates: "False \<in> set (consumed h h') \<or> pred_throws x (contents c h) \<longrightarrow> (\<exists>e. r = Inl e)"
    using drawn thrown by (cases r) auto
  have nothing: "\<forall>e. r = Inl e \<longrightarrow> c' = c \<and> contents c' h' = contents c h \<and>
      (\<forall>a < next_addr h. cells h' a = cells h a \<and> use_count h' a = use_count h a) \<and>
      (\<not> fault_free h \<or> \<not> pure_op x)"
  proof (intro allI impI)
    fix e
    assume e: "r = Inl e"
    from apply_op_effect [OF assms(1,3)] e
    have why: "\<not> fault_free h \<or> \<not> pure_op x"
      and what: "kept c h c' h' \<or> (\<exists>ys. in_place ys c h c' h')" by auto
    from assms(2) have "\<not> in_place ys c h c' h'" for ys
      by (auto simp: in_place_def sp_use_count_def)
    with what have k: "kept c h c' h'" by blast
    then have "c' = c"
      and "\<forall>a < next_addr h. cells h' a = cells h a \<and> use_count h' a = use_count h a"
      by (simp_all add: kept_def rest_same_def)
    with kept_contents [OF k assms(1)] why
    show "c' = c \<and> contents c' h' = contents c h \<and>
      (\<forall>a < next_addr h. cells h' a = cells h a \<and> use_count h' a = use_count h a) \<and>
      (\<not> fault_free h \<or> \<not> pure_op x)" by simp
  qed
  have all: "succeeded r \<longrightarrow> contents c' h' = ref_op x (contents c h)"
  proof
    assume "succeeded r"
    then obtain u where "r = Inr u" by (cases r) auto
    with assms(3) have "apply_op x c h = (Inr u, c', h')" by simp
    from apply_op_contents [OF assms(1) this] show "contents c' h' = ref_op x (contents c h)" .
  qed
  show ?thesis
  proof (intro conjI)
    show "faults h = consumed h h' @ faults h'" by (fact split)
    show "False \<in> set (consumed h h') \<or> pred_throws x (contents c h) \<longrightarrow> (\<exists>e. r = Inl e)"
      by (fact propagates)
    show "\<forall>e. r = Inl e \<longrightarrow>
              c' = c \<and> contents c' h' = contents c h \<and>
              (\<forall>a < next_addr h. cells h' a = cells h a \<and> use_count h' a = use_count h a) \<and>
              (\<not> fault_free h \<or> \<not> pure_op x)"
      by (fact nothing)
    show "succeeded r \<longrightarrow> contents c' h' = ref_op x (contents c h)" by (fact all)
  qed
qed

theorem copy_branch_all_or_nothing_witness:
  "fst (apply_op (PushBack 3) demo_vector (demo_heap 2 [True, True, False])) = Inl BadAlloc \<and>
   consumed (demo_heap 2 [True, True, False])
     (snd (snd (apply_op (PushBack 3) demo_vector (demo_heap 2 [True, True, False]))))
     = [True, True, False] \<and>
   fst (snd (apply_op (PushBack 3) demo_vector (demo_heap 2 [True, True, False]))) = demo_vector \<and>
   contents demo_vector (snd (snd (apply_op (PushBack 3) demo_vector (demo_heap 2 [True, True, False]))))
     = [1, 2] \<and>
   \<not> succeeded
       (fst (apply_op (Remove (\<lambda>v. if v = 2 then None else Some True)) demo_vector (demo_heap 2 []))) \<and>
   contents demo_vector
     (snd (snd (apply_op (Remove (\<lambda>v. if v = 2 then None else Some True)) demo_vector (demo_heap 2 []))))
     = [1, 2] \<and>
   contents (fst (snd (apply_op (PushBack 3) demo_vector (demo_heap 2 []))))
     (snd (snd (apply_op (PushBack 3) demo_vector (demo_heap 2 [])))) = [1, 2, 3]"
proof -
  have ok: "vector_ok demo_vector (demo_heap 2 fs)" for fs
    by (simp add: vector_ok_def heap_ok_def demo_vector_def demo_heap_def empty_storage_def)
  have shared: "sp_use_count (storage demo_vector) (demo_heap 2 fs) \<noteq> 1" for fs
    by (simp add: sp_use_count_def demo_vector_def demo_heap_def)
  have c: "contents demo_vector (demo_heap 2 fs) = [1, 2]" for fs
    by (simp add: contents_def vec_elems_def demo_vector_def demo_heap_def empty_storage_def)
  let ?A = "apply_op (PushBack 3) demo_vector (demo_heap 2 [True, True, False])"
  let ?B = "apply_op (Remove (\<lambda>v. if v = 2 then None else Some True)) demo_vector (demo_heap 2 [])"
  let ?C = "apply_op (PushBack 3) demo_vector (demo_heap 2 [])"
  have RA: "?A = (fst ?A, fst (snd ?A), snd (snd ?A))" by simp
  have RB: "?B = (fst ?B, fst (snd ?B), snd (snd ?B))" by simp
  have RC: "?C = (fst ?C, fst (snd ?C), snd (snd ?C))" by simp
  note A = copy_branch_all_or_nothing [OF ok shared RA]
  note B = copy_branch_all_or_nothing [OF ok shared RB]
  note C = copy_branch_all_or_nothing [OF ok shared RC]
  have fa: "faults (snd (snd ?A)) = []"
    by (simp add: store_defs vector_defs returning_def demo_vector_def demo_heap_def)
  have used: "consumed (demo_heap 2 [True, True, False]) (snd (snd ?A)) = [True, True, False]"
    unfolding consumed_def fa by (simp add: demo_heap_def)
  with A obtain e where e: "fst ?A = Inl e" by auto
  have a: "fst ?A = Inl BadAlloc"
    by (simp add: store_defs vector_defs returning_def demo_vector_def demo_heap_def)
  from A e c have unchanged: "fst (snd ?A) = demo_vector \<and> contents demo_vector (snd (snd ?A)) = [1, 2]"
    by (auto simp del: apply_op.simps)
  have "pred_throws (Remove (\<lambda>v. if v = 2 then None else Some True))
          (contents demo_vector (demo_heap 2 []))"
    by (simp add: c)
  with B obtain e' where e': "fst ?B = Inl e'" by auto
  with B c have b: "\<not> succeeded (fst ?B) \<and> contents demo_vector (snd (snd ?B)) = [1, 2]"
    by (auto simp del: apply_op.simps)
  have "fault_free (demo_heap 2 [])" by (simp add: fault_free_def demo_heap_def)
  with C have "succeeded (fst ?C)" by (cases "fst ?C") (auto simp del: apply_op.simps)
  with C c have "contents (fst (snd ?C)) (snd (snd ?C)) = [1, 2, 3]"
    by (auto simp del: apply_op.simps)
  with a used unchanged b show ?thesis by (simp del: apply_op.simps)
qed

subsection \<open>The read-only view\<close>

text \<open>
  Claim C9. The view that \<^verbatim>\<open>read_only_copy()\<close> returns never has a null pointer; its size
  is the number of elements of the container, so on a container with a null \<^verbatim>\<open>_storage\<close>
  the size is 0 and \<^verbatim>\<open>empty()\<close> is true. On every view of a live storage, \<^verbatim>\<open>at(pos)\<close>
  is the out-of-range error exactly when \<open>pos\<close> is not below the size, and the element at
  \<open>pos\<close> otherwise.
\<close>

theorem view_of_null_and_at:
  assumes "vector_ok c h" and "read_only_copy c h = (v, h')"
  shows "rv_storage v \<noteq> None \<and>
         rv_size v h' = Inr (length (contents c h)) \<and>
         rv_empty v h' = Inr (contents c h = []) \<and>
         (storage c = None \<longrightarrow> rv_size v h' = Inr 0 \<and> rv_empty v h' = Inr True) \<and>
         (\<forall>w g s pos. deref (rv_storage w) g = Inr s \<longrightarrow>
            rv_size w g = Inr (length (elems s)) \<and>
            (rv_at w pos g = Inl OutOfRange \<longleftrightarrow> length (elems s) \<le> pos) \<and>
            (pos < length (elems s) \<longrightarrow> rv_at w pos (g :: 'a heap) = Inr (elems s ! pos)))"
proof -
  from read_only_copy_held [OF assms] obtain a s where "rv_storage v = Some a"
    and "cells h' a = Some s" and "elems s = contents c h" by blast
  then have "rv_storage v \<noteq> None" and "rv_size v h' = Inr (length (contents c h))"
    and "rv_empty v h' = Inr (contents c h = [])"
    by (simp_all add: rv_size_def rv_empty_def deref_def)
  moreover have "storage c = None \<longrightarrow> contents c h = []" by (simp add: contents_def)
  ultimately show ?thesis by (auto simp: rv_size_def rv_at_def vec_at_def)
qed

theorem view_of_null_and_at_witness:
  "rv_storage (fst (read_only_copy vector_new (heap_init [] :: nat heap))) \<noteq> None \<and>
   rv_size (fst (read_only_copy vector_new (heap_init [] :: nat heap)))
           (snd (read_only_copy vector_new (heap_init [] :: nat heap))) = Inr 0 \<and>
   rv_empty (fst (read_only_copy vector_new (heap_init [] :: nat heap)))
           (snd (read_only_copy vector_new (heap_init [] :: nat heap))) = Inr True \<and>
   rv_at \<lparr>rv_storage = Some 1\<rparr> 1 (demo_heap 2 []) = Inr 2 \<and>
   rv_at \<lparr>rv_storage = Some 1\<rparr> 2 (demo_heap 2 []) = Inl OutOfRange"
proof -
  have ok: "vector_ok vector_new (heap_init [] :: nat heap)"
    by (simp add: vector_ok_def heap_ok_def vector_new_def heap_init_def empty_storage_def)
  have d: "deref (rv_storage \<lparr>rv_storage = Some 1\<rparr>) (demo_heap 2 [])
             = Inr \<lparr>elems = [1, 2], capacity = 4\<rparr>"
    by (simp add: deref_def demo_heap_def empty_storage_def)
  note T = view_of_null_and_at [OF ok prod.collapse [symmetric]]
  have n: "storage vector_new = None" by (simp add: vector_new_def)
  note T1 = T [THEN conjunct1]
  note T4 = T [THEN conjunct2, THEN conjunct2, THEN conjunct2, THEN conjunct1, rule_format, OF n]
  note T5 = T [THEN conjunct2, THEN conjunct2, THEN conjunct2, THEN conjunct2, rule_format, OF d]
  from T1 T4 T5 [of 1] T5 [of 2] show ?thesis by simp
qed

end
